theory Spec2Isabelle
  imports Main
begin

section \<open>String primitives of the host language\<close>

text \<open>
  Strings are lists of bytes, the UTF-8 form of the text.  The router looks for
  the three ASCII markers \<open>/\<close>, \<open>:\<close> and \<open>*\<close>, which are never part of the bytes of
  another character, tests for emptiness and compares whole strings.
\<close>

text \<open>\<open>s.includes(c)\<close> (the name alone is reserved) for a one-character needle.\<close>

definition str_includes :: "string \<Rightarrow> char \<Rightarrow> bool" where
  "str_includes s c = (c \<in> set s)"

text \<open>\<open>s.indexOf(c)\<close>: position of the first occurrence, \<open>-1\<close> when there is none.\<close>

fun indexOf :: "string \<Rightarrow> char \<Rightarrow> int" where
  "indexOf [] c = - 1"
| "indexOf (x # xs) c =
     (if x = c then 0
      else (let r = indexOf xs c in if r < 0 then - 1 else r + 1))"

text \<open>\<open>s.lastIndexOf(c)\<close>: position of the last occurrence, \<open>-1\<close> when there is none.\<close>

fun lastIndexOf :: "string \<Rightarrow> char \<Rightarrow> int" where
  "lastIndexOf [] c = - 1"
| "lastIndexOf (x # xs) c =
     (let r = lastIndexOf xs c in
      if 0 \<le> r then r + 1 else if x = c then 0 else - 1)"

text \<open>
  \<open>s.split(sep)\<close> for a one-character separator: the pieces between the separators,
  empty pieces included; the empty string gives one empty piece.
\<close>

fun split :: "char \<Rightarrow> string \<Rightarrow> string list" where
  "split sep [] = [[]]"
| "split sep (c # cs) =
     (if c = sep then [] # split sep cs
      else (case split sep cs of
              [] \<Rightarrow> [[c]]
            | w # ws \<Rightarrow> (c # w) # ws))"

text \<open>\<open>xs.join(sep)\<close>.\<close>

fun join :: "string \<Rightarrow> string list \<Rightarrow> string" where
  "join sep [] = []"
| "join sep [x] = x"
| "join sep (x # y # ys) = x @ sep @ join sep (y # ys)"

text \<open>
  \<open>s.toUpperCase()\<close>, on strings held as UTF-8 bytes.  The ASCII letters are
  capitalised.  Ten characters outside ASCII have a capital form made of ASCII
  letters only, and are turned into it: sharp s (U+00DF, \<open>SS\<close>), dotless i
  (U+0131, \<open>I\<close>), long s (U+017F, \<open>S\<close>) and the seven Latin ligatures U+FB00 to
  U+FB06 (\<open>FF\<close>, \<open>FI\<close>, \<open>FL\<close>, \<open>FFI\<close>, \<open>FFL\<close>, \<open>ST\<close>, \<open>ST\<close>).  Every other
  character is left as it is; the host may turn it into other characters, one
  of them at least outside ASCII, so the comparison of the result with a method
  name comes out the same.
\<close>

definition toUpperCase_char :: "char \<Rightarrow> char" where
  "toUpperCase_char c =
     (case map_of (zip ''abcdefghijklmnopqrstuvwxyz'' ''ABCDEFGHIJKLMNOPQRSTUVWXYZ'') c of
        None \<Rightarrow> c
      | Some u \<Rightarrow> u)"

definition special_upper :: "(string \<times> string) list" where
  "special_upper =
     [([CHR 0xC3, CHR 0x9F], ''SS''),
      ([CHR 0xC4, CHR 0xB1], ''I''),
      ([CHR 0xC5, CHR 0xBF], ''S''),
      ([CHR 0xEF, CHR 0xAC, CHR 0x80], ''FF''),
      ([CHR 0xEF, CHR 0xAC, CHR 0x81], ''FI''),
      ([CHR 0xEF, CHR 0xAC, CHR 0x82], ''FL''),
      ([CHR 0xEF, CHR 0xAC, CHR 0x83], ''FFI''),
      ([CHR 0xEF, CHR 0xAC, CHR 0x84], ''FFL''),
      ([CHR 0xEF, CHR 0xAC, CHR 0x85], ''ST''),
      ([CHR 0xEF, CHR 0xAC, CHR 0x86], ''ST'')]"

text \<open>
  The pass over the bytes; \<open>skip\<close> counts the bytes still to pass over of a
  character already turned into its capital form.
\<close>

fun upper_from :: "nat \<Rightarrow> string \<Rightarrow> string" where
  "upper_from skip [] = []"
| "upper_from (Suc n) (c # cs) = upper_from n cs"
| "upper_from 0 (c # cs) =
     (case find (\<lambda>(p, u). take (length p) (c # cs) = p) special_upper of
        Some (p, u) \<Rightarrow> u @ upper_from (length p - 1) cs
      | None \<Rightarrow> toUpperCase_char c # upper_from 0 cs)"

definition toUpperCase :: "string \<Rightarrow> string" where
  "toUpperCase s = upper_from 0 s"

text \<open>
  \<open>obj[key] = value\<close> on a plain object, for a value that is a string or
  \<open>undefined\<close>.  The key \<open>__proto__\<close> is the accessor of the prototype, whose
  setter ignores a value that is neither an object nor \<open>null\<close>: nothing is stored.
\<close>

definition set_property :: "(string \<rightharpoonup> 'v) \<Rightarrow> string \<Rightarrow> 'v \<Rightarrow> (string \<rightharpoonup> 'v)" where
  "set_property obj key v = (if key = ''__proto__'' then obj else obj(key \<mapsto> v))"

text \<open>\<open>s.split('/').filter(i => !!i)\<close>: the non-empty pieces between slashes.\<close>

definition segments :: "string \<Rightarrow> string list" where
  "segments s = filter (\<lambda>i. i \<noteq> []) (split CHR ''/'' s)"


section \<open>Compiled routes\<close>

datatype RouterMethod = GET | POST | PATCH | DELETE | OPTIONS

text \<open>The string each member of the \<open>RouterMethod\<close> union type is.\<close>

fun method_string :: "RouterMethod \<Rightarrow> string" where
  "method_string GET = ''GET''"
| "method_string POST = ''POST''"
| "method_string PATCH = ''PATCH''"
| "method_string DELETE = ''DELETE''"
| "method_string OPTIONS = ''OPTIONS''"

record RouterItemPart =
  name :: string
  param :: bool

text \<open>
  A compiled route; \<open>item_method\<close> is the field \<open>_method\<close> (the bare word is a
  command of the proof language).  The handlers are opaque to compilation,
  conflict checking and matching.
\<close>

record 'h RouterItem =
  item_method :: RouterMethod
  pattern :: string
  handlers :: "'h list"
  parts :: "RouterItemPart list"
  variadic :: bool

text \<open>The two errors of the constructor and the one of \<open>_add\<close>, with the strings they quote.\<close>

datatype error =
  EmptyPattern
| WrongPattern string
| Conflicts string string

text \<open>
  The loop of the constructor over the pieces of the pattern; \<open>acc\<close> is \<open>this._parts\<close>
  so far, each \<open>push\<close> appends to it, and a \<open>throw\<close> leaves the loop with the error.
\<close>

fun compile_parts :: "string \<Rightarrow> string list \<Rightarrow> RouterItemPart list \<Rightarrow> error + RouterItemPart list" where
  "compile_parts pat [] acc = Inr acc"
| "compile_parts pat (part # rest) acc =
     (if str_includes part CHR '':'' then
        (if indexOf part CHR '':'' = 0 \<and> lastIndexOf part CHR '':'' = 0
         then compile_parts pat rest (acc @ [\<lparr>name = drop 1 part, param = True\<rparr>])
         else Inl (WrongPattern pat))
      else if str_includes part CHR ''*'' then
        (if length part = 1
         then compile_parts pat rest (acc @ [\<lparr>name = ''*'', param = True\<rparr>])
         else Inl (WrongPattern pat))
      else compile_parts pat rest (acc @ [\<lparr>name = part, param = False\<rparr>]))"

text \<open>\<open>new RouterItem(method, pattern, head, ...tail)\<close>.\<close>

definition new_RouterItem ::
  "RouterMethod \<Rightarrow> string \<Rightarrow> 'h \<Rightarrow> 'h list \<Rightarrow> error + 'h RouterItem" where
  "new_RouterItem m pat head tail =
     (if length pat = 0 then Inl EmptyPattern
      else if indexOf pat CHR ''*'' \<noteq> lastIndexOf pat CHR ''*'' then Inl (WrongPattern pat)
      else (case compile_parts pat (segments pat) [] of
              Inl e \<Rightarrow> Inl e
            | Inr ps \<Rightarrow>
                Inr \<lparr>item_method = m, pattern = pat, handlers = head # tail,
                     parts = ps, variadic = str_includes pat CHR ''*''\<rparr>))"

text \<open>
  The loop of \<open>conflicts\<close> from index \<open>i\<close>.  \<open>lparts[i]\<close> is \<open>undefined\<close> exactly
  when the length of \<open>lparts\<close> is at most \<open>i\<close>.
\<close>

function conflicts_loop :: "RouterItemPart list \<Rightarrow> RouterItemPart list \<Rightarrow> nat \<Rightarrow> bool" where
  "conflicts_loop lparts rparts i =
     (if i < max (length lparts) (length rparts) then
        (if length lparts \<le> i \<or> length rparts \<le> i then False
         else if name (lparts ! i) = ''*'' \<or> name (rparts ! i) = ''*'' then True
         else if param (lparts ! i) \<or> param (rparts ! i) then conflicts_loop lparts rparts (i + 1)
         else if name (lparts ! i) \<noteq> name (rparts ! i) then False
         else conflicts_loop lparts rparts (i + 1))
      else True)"
  by pat_completeness auto
termination
  by (relation "measure (\<lambda>(l, r, i). max (length l) (length r) - i)") auto

declare conflicts_loop.simps [simp del]

definition conflicts :: "'h RouterItem \<Rightarrow> 'h RouterItem \<Rightarrow> bool" where
  "conflicts this item =
     (if item_method this \<noteq> item_method item then False
      else conflicts_loop (parts this) (parts item) 0)"

text \<open>
  The loop of \<open>matches\<close> from index \<open>i\<close>, with the bindings made so far.  It runs
  only under the length test of \<open>matches\<close>, so \<open>i\<close> is below the length of the
  request's segments whenever \<open>rparts ! i\<close> is read.
\<close>

type_synonym params = "string \<rightharpoonup> string"

function matches_loop ::
  "RouterItemPart list \<Rightarrow> string list \<Rightarrow> nat \<Rightarrow> params \<Rightarrow> bool \<times> params" where
  "matches_loop lparts rparts i ps =
     (if i < length lparts then
        (if param (lparts ! i) then
           (if name (lparts ! i) = ''*''
            then matches_loop lparts rparts (i + 1)
                   (set_property ps (name (lparts ! i)) (join ''/'' (drop i rparts)))
            else matches_loop lparts rparts (i + 1)
                   (set_property ps (name (lparts ! i)) (rparts ! i)))
         else if name (lparts ! i) \<noteq> rparts ! i then (False, Map.empty)
         else matches_loop lparts rparts (i + 1) ps)
      else (True, ps))"
  by pat_completeness auto
termination
  by (relation "measure (\<lambda>(l, r, i, ps). length l - i)") auto

declare matches_loop.simps [simp del]

definition matches :: "'h RouterItem \<Rightarrow> string \<Rightarrow> string list \<Rightarrow> bool \<times> params" where
  "matches this meth rparts =
     (if toUpperCase meth = method_string (item_method this) then
        (if (length (parts this) = length rparts \<and> \<not> variadic this)
            \<or> (length (parts this) \<le> length rparts \<and> variadic this)
         then matches_loop (parts this) rparts 0 Map.empty
         else (False, Map.empty))
      else (False, Map.empty))"


section \<open>The route table\<close>

record 'h Router =
  routes :: "'h RouterItem list"

definition new_Router :: "'h Router" where
  "new_Router = \<lparr>routes = []\<rparr>"

text \<open>
  The loop of \<open>_add\<close> over the routes already there: the first one the new item
  conflicts with is the one the error names.
\<close>

fun add_check :: "'h RouterItem \<Rightarrow> 'h RouterItem list \<Rightarrow> error option" where
  "add_check item [] = None"
| "add_check item (i # rest) =
     (if conflicts item i then Some (Conflicts (pattern item) (pattern i))
      else add_check item rest)"

text \<open>
  \<open>Router._add\<close>, as a step on the router: the result is the error thrown, if
  any, and the router as the call leaves it.
\<close>

definition add ::
  "'h Router \<Rightarrow> RouterMethod \<Rightarrow> string \<Rightarrow> 'h \<Rightarrow> 'h list \<Rightarrow> (error + unit) \<times> 'h Router" where
  "add r m pat head tail =
     (case new_RouterItem m pat head tail of
        Inl e \<Rightarrow> (Inl e, r)
      | Inr item \<Rightarrow>
          (case add_check item (routes r) of
             Some e \<Rightarrow> (Inl e, r)
           | None \<Rightarrow> (Inr (), r\<lparr>routes := routes r @ [item]\<rparr>)))"

definition Router_GET where "Router_GET r pat head tail = add r GET pat head tail"
definition Router_POST where "Router_POST r pat head tail = add r POST pat head tail"
definition Router_PATCH where "Router_PATCH r pat head tail = add r PATCH pat head tail"
definition Router_DELETE where "Router_DELETE r pat head tail = add r DELETE pat head tail"
definition Router_OPTIONS where "Router_OPTIONS r pat head tail = add r OPTIONS pat head tail"


section \<open>Dispatch\<close>

text \<open>
  What the router reads of a request: its method, its URL and, for the body
  helpers, what \<open>headers.get('Content-Type')\<close> gives.
\<close>

record ServerRequest =
  req_method :: string
  req_url :: string
  req_content_type :: "string option"

record ('r, 'p) RouterContext =
  req :: 'r
  props :: 'p
  params :: params

text \<open>
  How an awaited call of a handler ends: it settles after having called \<open>next\<close>, it
  settles without, or it throws (a rejected promise included).
\<close>

datatype 'e settled = Continued | Stopped | Threw 'e

text \<open>
  A handler acts on the world \<open>'w\<close> outside the router: the response written, the
  props_fields of the props object, whatever else it touches.
\<close>

type_synonym ('r, 'p, 'w, 'e) RouterHandler =
  "('r, 'p) RouterContext \<Rightarrow> 'w \<Rightarrow> 'e settled \<times> 'w"

text \<open>
  The log of handler calls, kept beside the world so that "is invoked" can be
  stated: the handler, the context it was given, and how the call ended.
\<close>

type_synonym ('r, 'p, 'w, 'e) call =
  "('r, 'p, 'w, 'e) RouterHandler \<times> ('r, 'p) RouterContext \<times> 'e settled"

text \<open>
  The inner loop of \<open>process\<close>: each handler is awaited, then \<open>next\<close> is
  tested.  The result is the error that escaped, if any.
\<close>

fun run_handlers ::
  "('r, 'p) RouterContext \<Rightarrow> ('r, 'p, 'w, 'e) RouterHandler list \<Rightarrow> 'w \<Rightarrow>
     ('r, 'p, 'w, 'e) call list \<Rightarrow> 'e option \<times> 'w \<times> ('r, 'p, 'w, 'e) call list" where
  "run_handlers context [] w log = (None, w, log)"
| "run_handlers context (handler # rest) w log =
     (case handler context w of
        (Continued, w') \<Rightarrow> run_handlers context rest w' (log @ [(handler, context, Continued)])
      | (Stopped, w') \<Rightarrow> (None, w', log @ [(handler, context, Stopped)])
      | (Threw e, w') \<Rightarrow> (Some e, w', log @ [(handler, context, Threw e)]))"

text \<open>The outer loop of \<open>process\<close> over the routes, in the order of the table.\<close>

fun process_routes ::
  "(('r, 'p, 'w, 'e) RouterHandler) RouterItem list \<Rightarrow> string \<Rightarrow> string list \<Rightarrow> 'r \<Rightarrow> 'p \<Rightarrow> 'w \<Rightarrow>
     ('e + bool) \<times> 'w \<times> ('r, 'p, 'w, 'e) call list" where
  "process_routes [] meth ps rq pr w = (Inr False, w, [])"
| "process_routes (route # rest) meth ps rq pr w =
     (let res = matches route meth ps in
      if fst res then
        (let context = \<lparr>req = rq, props = pr, params = snd res\<rparr> in
         case run_handlers context (handlers route) w [] of
           (Some e, w', log) \<Rightarrow> (Inl e, w', log)
         | (None, w', log) \<Rightarrow> (Inr True, w', log))
      else process_routes rest meth ps rq pr w)"

text \<open>
  \<open>Router.process\<close>.  \<open>pathname\<close> stands for the host's URL parser,
  \<open>new URL(req.url, 'http://whatever').pathname\<close>, which throws on a string it
  cannot parse.
\<close>

definition process ::
  "(string \<Rightarrow> 'e + string) \<Rightarrow> (('r ServerRequest_scheme, 'p, 'w, 'e) RouterHandler) Router \<Rightarrow>
     'r ServerRequest_scheme \<Rightarrow> 'p \<Rightarrow> 'w \<Rightarrow>
     ('e + bool) \<times> 'w \<times> ('r ServerRequest_scheme, 'p, 'w, 'e) call list" where
  "process pathname r rq pr w =
     (case pathname (req_url rq) of
        Inl e \<Rightarrow> (Inl e, w, [])
      | Inr path \<Rightarrow> process_routes (routes r) (req_method rq) (segments path) rq pr w)"


section \<open>Reading the body\<close>

text \<open>
  \<open>paramsToObject\<close>: the pairs between the separators, each cut at \<open>=\<close>; a
  pair without \<open>=\<close> stores \<open>undefined\<close> (here \<open>None\<close>) under its key, and a later
  pair overwrites an earlier one with the same key.
\<close>

definition paramsToObject :: "string \<Rightarrow> char \<Rightarrow> (string \<rightharpoonup> string option)" where
  "paramsToObject ps sep =
     foldl (\<lambda>ret pair.
              (let kv = split CHR ''='' pair in
               set_property ret (kv ! 0) (if 1 < length kv then Some (kv ! 1) else None)))
       Map.empty (split sep ps)"

text \<open>What \<open>readBodyAsJSON\<close> yields: a parsed JSON value, or the object of a form.\<close>

datatype 'j decoded = JSON 'j | Form "string \<rightharpoonup> string option"

text \<open>
  What the body helpers throw: the two classes of the module, and anything else
  (a failed read of the stream, a malformed escape in a form).
\<close>

datatype 'e thrown =
  JSONParseError string
| UnsupportedMediaTypeError "string option"
| Other 'e

text \<open>
  The host functions the helpers call: \<open>JSON.parse\<close>, which throws with a message,
  and \<open>decodeURIComponent\<close>, which throws on a malformed escape.
\<close>

record ('j, 'e) host =
  JSON_parse :: "string \<Rightarrow> string + 'j"
  decodeURIComponent :: "string \<Rightarrow> 'e + string"

text \<open>
  The world of one dispatch as the body middleware sees it: the two properties
  the helpers cache on the request object, what reading and decoding the body
  stream gives, the fields of each props object, what the assignment of a value
  to a field of a props object throws, if it throws (a \<open>TypeError\<close> when the
  object is frozen or is \<open>null\<close>, whatever a setter throws), and the statuses
  responded.  A key is a field the type of the props declares.
\<close>

record ('j, 'e, 'p, 'k) served =
  bodytext :: "string option"
  bodyjson :: "'j decoded option"
  body_stream :: "'e + string"
  props_fields :: "'p \<Rightarrow> ('k \<rightharpoonup> 'j decoded)"
  store_throws :: "'p \<Rightarrow> 'k \<Rightarrow> 'j decoded \<Rightarrow> 'e thrown option"
  responded :: "nat list"

definition readBodyAsText ::
  "('j, 'e, 'p, 'k) served \<Rightarrow> ('e thrown + string) \<times> ('j, 'e, 'p, 'k) served" where
  "readBodyAsText w =
     (case bodytext w of
        Some text \<Rightarrow> (Inr text, w)
      | None \<Rightarrow>
          (case body_stream w of
             Inl e \<Rightarrow> (Inl (Other e), w)
           | Inr text \<Rightarrow> (Inr text, w\<lparr>bodytext := Some text\<rparr>)))"

definition readBodyAsJSON ::
  "('j, 'e) host \<Rightarrow> 'r ServerRequest_scheme \<Rightarrow> ('j, 'e, 'p, 'k) served \<Rightarrow>
     ('e thrown + 'j decoded) \<times> ('j, 'e, 'p, 'k) served" where
  "readBodyAsJSON h rq w =
     (case bodyjson w of
        Some v \<Rightarrow> (Inr v, w)
      | None \<Rightarrow>
          (case readBodyAsText w of
             (Inl e, w1) \<Rightarrow> (Inl e, w1)
           | (Inr text, w1) \<Rightarrow>
               (if req_content_type rq = Some ''application/json'' then
                  (case JSON_parse h text of
                     Inl msg \<Rightarrow> (Inl (JSONParseError msg), w1)
                   | Inr v \<Rightarrow> (Inr (JSON v), w1\<lparr>bodyjson := Some (JSON v)\<rparr>))
                else if req_content_type rq = Some ''application/x-www-form-urlencoded'' then
                  (case decodeURIComponent h text of
                     Inl e \<Rightarrow> (Inl (Other e), w1)
                   | Inr t \<Rightarrow>
                       (let v = Form (paramsToObject t CHR ''&'') in
                        (Inr v, w1\<lparr>bodyjson := Some v\<rparr>)))
                else (Inl (UnsupportedMediaTypeError (req_content_type rq)), w1))))"

text \<open>\<open>context.req.respond({ status })\<close>.\<close>

definition respond :: "nat \<Rightarrow> ('j, 'e, 'p, 'k) served \<Rightarrow> ('j, 'e, 'p, 'k) served" where
  "respond status w = w\<lparr>responded := responded w @ [status]\<rparr>"

text \<open>
  The \<open>catch\<close> clause of the middleware: the status responded for what was
  thrown, by its class.
\<close>

fun catch_status :: "'e thrown \<Rightarrow> nat" where
  "catch_status (UnsupportedMediaTypeError t) = 415"
| "catch_status (JSONParseError msg) = 400"
| "catch_status (Other e) = 500"

text \<open>
  The middleware \<open>bodyJSON(key)\<close>, a handler on that world.  The body is read,
  then the value is assigned to the field, then \<open>next\<close>, the callback of the
  router that sets its flag, is called; what the read or the assignment throws
  is caught.
\<close>

definition bodyJSON ::
  "('j, 'e) host \<Rightarrow> 'k \<Rightarrow>
     ('r ServerRequest_scheme, 'p, ('j, 'e, 'p, 'k) served, 'x) RouterHandler" where
  "bodyJSON h key context w =
     (case readBodyAsJSON h (req context) w of
        (Inl e, w1) \<Rightarrow> (Stopped, respond (catch_status e) w1)
      | (Inr v, w1) \<Rightarrow>
          (case store_throws w1 (props context) key v of
             Some e \<Rightarrow> (Stopped, respond (catch_status e) w1)
           | None \<Rightarrow>
               (Continued,
                w1\<lparr>props_fields :=
                     (props_fields w1)(props context := (props_fields w1 (props context))(key \<mapsto> v))\<rparr>)))"

section \<open>Auxiliary notions\<close>

text \<open>
  What the body of the constructor's loop does with one segment: the part it
  pushes, or nothing when it throws.  Used to describe the loop in the proofs.
\<close>

definition compile_part :: "string \<Rightarrow> RouterItemPart option" where
  "compile_part part =
     (if CHR '':'' \<in> set part then
        (if hd part = CHR '':'' \<and> CHR '':'' \<notin> set (tl part)
         then Some \<lparr>name = tl part, param = True\<rparr> else None)
      else if CHR ''*'' \<in> set part then
        (if part = ''*'' then Some \<lparr>name = ''*'', param = True\<rparr> else None)
      else Some \<lparr>name = part, param = False\<rparr>)"


text \<open>
  Two handlers for the worked examples, on a world that lists the handlers that
  have run: each appends its number, then one calls \<open>next\<close> and the other does not.
\<close>

definition continuing :: "nat \<Rightarrow> (ServerRequest, unit, nat list, unit) RouterHandler" where
  "continuing n context w = (Continued, w @ [n])"

definition stopping :: "nat \<Rightarrow> (ServerRequest, unit, nat list, unit) RouterHandler" where
  "stopping n context w = (Stopped, w @ [n])"

text \<open>A URL parser for the examples, which takes the URL for its own path.\<close>

definition path_only :: "string \<Rightarrow> unit + string" where
  "path_only u = Inr u"

text \<open>
  A host and a world for the worked examples of the body middleware: the JSON
  parser knows one document, and the world is that of a request whose body has
  not been read yet, with nothing in its props object, to which assignments
  succeed.
\<close>

definition example_host :: "(unit, unit) host" where
  "example_host =
     \<lparr>JSON_parse = (\<lambda>s. if s = ''{}'' then Inr () else Inl ''Unexpected token''),
      decodeURIComponent = Inr\<rparr>"

definition unread :: "string \<Rightarrow> (unit, unit, unit, string) served" where
  "unread text =
     \<lparr>bodytext = None, bodyjson = None, body_stream = Inr text,
      props_fields = (\<lambda>p. Map.empty), store_throws = (\<lambda>p k v. None), responded = []\<rparr>"

text \<open>The same world with the props object frozen: every assignment to it throws.\<close>

definition unread_frozen :: "string \<Rightarrow> (unit, unit, unit, string) served" where
  "unread_frozen text = (unread text)\<lparr>store_throws := (\<lambda>p k v. Some (Other ()))\<rparr>"

text \<open>The tables that successful registrations build from a fresh router.\<close>

inductive registered :: "'h Router \<Rightarrow> bool" where
  fresh: "registered new_Router"
| added: "registered r \<Longrightarrow> add r m pat h t = (Inr (), r') \<Longrightarrow> registered r'"

section \<open>Evaluation\<close>

text \<open>The equations that run the router on a concrete input.\<close>

lemmas eval_defs =
  new_RouterItem_def segments_def str_includes_def add_def conflicts_def
  conflicts_loop.simps matches_def matches_loop.simps set_property_def
  toUpperCase_def toUpperCase_char_def special_upper_def
  Router_GET_def Router_POST_def new_Router_def

lemma toUpperCase_method_string: "toUpperCase (method_string m) = method_string m"
  by (cases m) (simp_all add: toUpperCase_def toUpperCase_char_def special_upper_def)



text \<open>Off ASCII: long s, dotless i and the ligature of s and t are capitalised into method names.\<close>

lemma toUpperCase_long_s: "toUpperCase (''po'' @ [CHR 0xC5, CHR 0xBF] @ ''t'') = ''POST''"
  by (simp add: toUpperCase_def toUpperCase_char_def special_upper_def)

lemma toUpperCase_dotless_i: "toUpperCase (''opt'' @ [CHR 0xC4, CHR 0xB1] @ ''ons'') = ''OPTIONS''"
  by (simp add: toUpperCase_def toUpperCase_char_def special_upper_def)

lemma toUpperCase_st_ligature: "toUpperCase (''po'' @ [CHR 0xEF, CHR 0xAC, CHR 0x86]) = ''POST''"
  by (simp add: toUpperCase_def toUpperCase_char_def special_upper_def)

text \<open>The key \<open>__proto__\<close> is never bound: the route \<open>/:__proto__\<close> matches and binds nothing.\<close>

lemma proto_param_not_bound:
  "matches (projr (new_RouterItem GET ''/:__proto__'' () [])) ''GET'' (segments ''/x'') = (True, Map.empty)"
  by (simp add: eval_defs)
section \<open>Facts about the string primitives and the constructor\<close>

lemma indexOf_absent: "indexOf s c < 0 \<longleftrightarrow> c \<notin> set s"
  by (induction s) (auto simp: Let_def)

lemma indexOf_ge: "- 1 \<le> indexOf s c"
  by (induction s) (auto simp: Let_def)

lemma lastIndexOf_absent: "lastIndexOf s c < 0 \<longleftrightarrow> c \<notin> set s"
  by (induction s) (auto simp: Let_def)

lemma lastIndexOf_ge: "- 1 \<le> lastIndexOf s c"
  by (induction s) (auto simp: Let_def)

lemma indexOf_zero: "indexOf s c = 0 \<longleftrightarrow> s \<noteq> [] \<and> hd s = c"
proof (cases s)
  case Nil
  then show ?thesis by simp
next
  case (Cons x xs)
  have "- 1 \<le> indexOf xs c" by (rule indexOf_ge)
  then show ?thesis using Cons by (auto simp: Let_def)
qed

lemma lastIndexOf_zero: "lastIndexOf s c = 0 \<longleftrightarrow> s \<noteq> [] \<and> hd s = c \<and> c \<notin> set (tl s)"
proof (cases s)
  case Nil
  then show ?thesis by simp
next
  case (Cons x xs)
  have "- 1 \<le> lastIndexOf xs c" by (rule lastIndexOf_ge)
  moreover have "lastIndexOf xs c < 0 \<longleftrightarrow> c \<notin> set xs" by (rule lastIndexOf_absent)
  ultimately show ?thesis using Cons by (auto simp: Let_def)
qed

lemma indexOf_le_lastIndexOf: "indexOf s c \<le> lastIndexOf s c"
proof (induction s)
  case Nil
  then show ?case by simp
next
  case (Cons x xs)
  have a: "indexOf xs c < 0 \<longleftrightarrow> c \<notin> set xs" by (rule indexOf_absent)
  have b: "lastIndexOf xs c < 0 \<longleftrightarrow> c \<notin> set xs" by (rule lastIndexOf_absent)
  have c: "- 1 \<le> lastIndexOf xs c" by (rule lastIndexOf_ge)
  show ?case using Cons a b c by (auto simp: Let_def)
qed

lemma indexOf_eq_lastIndexOf: "indexOf s c = lastIndexOf s c \<longleftrightarrow> count_list s c \<le> 1"
proof (induction s)
  case Nil
  then show ?case by simp
next
  case (Cons x xs)
  have a: "indexOf xs c < 0 \<longleftrightarrow> c \<notin> set xs" by (rule indexOf_absent)
  have b: "lastIndexOf xs c < 0 \<longleftrightarrow> c \<notin> set xs" by (rule lastIndexOf_absent)
  have c: "- 1 \<le> lastIndexOf xs c" by (rule lastIndexOf_ge)
  have d: "- 1 \<le> indexOf xs c" by (rule indexOf_ge)
  have e: "count_list xs c = 0 \<longleftrightarrow> c \<notin> set xs" by (simp add: count_list_0_iff)
  show ?case
  proof (cases "x = c")
    case True
    then show ?thesis using a b c d e by (auto simp: Let_def)
  next
    case False
    then show ?thesis using Cons a b c d e by (auto simp: Let_def)
  qed
qed

lemma length_one_star: "CHR ''*'' \<in> set part \<Longrightarrow> length part = 1 \<longleftrightarrow> part = ''*''"
  by (cases part) auto

lemma colon_first_only:
  "CHR '':'' \<in> set part \<Longrightarrow>
     indexOf part CHR '':'' = 0 \<and> lastIndexOf part CHR '':'' = 0
       \<longleftrightarrow> hd part = CHR '':'' \<and> CHR '':'' \<notin> set (tl part)"
  by (auto simp: indexOf_zero lastIndexOf_zero)

lemma compile_parts_step:
  "compile_parts pat (part # rest) acc =
     (case compile_part part of
        None \<Rightarrow> Inl (WrongPattern pat)
      | Some p \<Rightarrow> compile_parts pat rest (acc @ [p]))"
proof (cases "CHR '':'' \<in> set part")
  case True
  then show ?thesis
    using colon_first_only [OF True]
    by (simp add: compile_part_def str_includes_def drop_Suc)
next
  case False
  show ?thesis
  proof (cases "CHR ''*'' \<in> set part")
    case True
    then show ?thesis
      using False length_one_star [OF True]
      by (simp add: compile_part_def str_includes_def)
  next
    case no_star: False
    then show ?thesis
      using False by (simp add: compile_part_def str_includes_def)
  qed
qed

lemma compile_parts_char:
  "compile_parts pat segs acc =
     (if \<forall>s \<in> set segs. compile_part s \<noteq> None
      then Inr (acc @ map (\<lambda>s. the (compile_part s)) segs)
      else Inl (WrongPattern pat))"
proof (induction segs arbitrary: acc)
  case Nil
  then show ?case by simp
next
  case (Cons part rest)
  show ?case
    unfolding compile_parts_step
    by (cases "compile_part part") (simp_all add: Cons)
qed


lemma split_not_Nil: "split sep s \<noteq> []"
  by (induction s) (auto split: list.splits)

lemma split_append_sep: "split sep (xs @ sep # ys) = split sep xs @ split sep ys"
proof (induction xs)
  case Nil
  then show ?case by simp
next
  case (Cons x xs)
  then show ?case
    using split_not_Nil [of sep xs] by (auto split: list.splits)
qed

lemma split_no_sep: "sep \<notin> set w \<Longrightarrow> split sep w = [w]"
  by (induction w) auto

lemma segments_Nil: "segments [] = []"
  by (simp add: segments_def)

lemma segments_single: "CHR ''/'' \<notin> set w \<Longrightarrow> w \<noteq> [] \<Longrightarrow> segments w = [w]"
  by (simp add: segments_def split_no_sep)

lemma segments_append_slash: "segments (xs @ CHR ''/'' # ys) = segments xs @ segments ys"
  by (simp add: segments_def split_append_sep)

lemma segments_sandwich:
  assumes pre: "pre = [] \<or> last pre = CHR ''/''"
    and post: "post = [] \<or> hd post = CHR ''/''"
    and w: "CHR ''/'' \<notin> set w" "w \<noteq> []"
  shows "segments (pre @ w @ post) = segments pre @ [w] @ segments post"
proof -
  have right: "segments (w @ post) = [w] @ segments post"
  proof (cases post)
    case Nil
    then show ?thesis using w by (simp add: segments_single segments_Nil)
  next
    case (Cons c cs)
    with post have "post = CHR ''/'' # cs" by simp
    then show ?thesis
      using w segments_append_slash [of w cs] segments_append_slash [of "[]" cs]
      by (simp add: segments_single segments_Nil)
  qed
  show ?thesis
  proof (cases "pre = []")
    case True
    then show ?thesis using right by (simp add: segments_Nil)
  next
    case False
    with pre have "pre = butlast pre @ [CHR ''/'']"
      by (metis append_butlast_last_id)
    then obtain p where p: "pre = p @ [CHR ''/'']" ..
    have "segments (pre @ w @ post) = segments p @ segments (w @ post)"
      using segments_append_slash [of p "w @ post"] p by simp
    moreover have "segments pre = segments p"
      using segments_append_slash [of p "[]"] p by (simp add: segments_Nil)
    ultimately show ?thesis using right by simp
  qed
qed

lemma new_RouterItem_char:
  "new_RouterItem m pat h t =
     (if pat = [] then Inl EmptyPattern
      else if 1 < count_list pat CHR ''*'' then Inl (WrongPattern pat)
      else if \<forall>s \<in> set (segments pat). compile_part s \<noteq> None
      then Inr \<lparr>item_method = m, pattern = pat, handlers = h # t,
                parts = map (\<lambda>s. the (compile_part s)) (segments pat),
                variadic = (CHR ''*'' \<in> set pat)\<rparr>
      else Inl (WrongPattern pat))"
proof -
  have "indexOf pat CHR ''*'' \<noteq> lastIndexOf pat CHR ''*'' \<longleftrightarrow> 1 < count_list pat CHR ''*''"
    using indexOf_eq_lastIndexOf [of pat "CHR ''*''"] by linarith
  then show ?thesis
    by (auto simp add: new_RouterItem_def compile_parts_char str_includes_def)
qed


lemma add_check_append:
  "add_check item (rs @ [i]) =
     (case add_check item rs of
        Some e \<Rightarrow> Some e
      | None \<Rightarrow> if conflicts item i then Some (Conflicts (pattern item) (pattern i)) else None)"
  by (induction rs) auto

lemma add_check_None: "add_check item rs = None \<longleftrightarrow> (\<forall>i \<in> set rs. \<not> conflicts item i)"
  by (induction rs) auto

lemma add_check_Some:
  "add_check item rs = Some e \<Longrightarrow> \<exists>i \<in> set rs. conflicts item i \<and> e = Conflicts (pattern item) (pattern i)"
  by (induction rs) (auto split: if_splits)

lemma add_cases:
  "add r m pat h t =
     (case new_RouterItem m pat h t of
        Inl e \<Rightarrow> (Inl e, r)
      | Inr item \<Rightarrow>
          if \<exists>i \<in> set (routes r). conflicts item i
          then (Inl (the (add_check item (routes r))), r)
          else (Inr (), r\<lparr>routes := routes r @ [item]\<rparr>))"
proof (cases "new_RouterItem m pat h t")
  case (Inl e)
  then show ?thesis by (simp add: add_def)
next
  case (Inr item)
  show ?thesis
  proof (cases "add_check item (routes r)")
    case None
    then show ?thesis using Inr add_check_None [of item "routes r"] by (simp add: add_def)
  next
    case (Some e)
    then show ?thesis using Inr add_check_None [of item "routes r"] by (simp add: add_def)
  qed
qed

lemma conflicts_methods_differ: "item_method a \<noteq> item_method b \<Longrightarrow> \<not> conflicts a b"
  by (simp add: conflicts_def)



section \<open>Facts about the matching loop\<close>

lemma from_index_split:
  assumes "i < n"
  shows "(\<forall>j. i \<le> j \<and> j < n \<longrightarrow> Q j) \<longleftrightarrow> Q i \<and> (\<forall>j. Suc i \<le> j \<and> j < n \<longrightarrow> Q j)"
proof -
  have "i \<le> j \<longleftrightarrow> j = i \<or> Suc i \<le> j" for j by auto
  then show ?thesis using assms by auto
qed

text \<open>The loop succeeds exactly when every literal part from \<open>i\<close> on equals the request segment at its index.\<close>

lemma matches_loop_fst:
  "fst (matches_loop ls rs i ps) \<longleftrightarrow>
     (\<forall>j. i \<le> j \<and> j < length ls \<longrightarrow> \<not> param (ls ! j) \<longrightarrow> name (ls ! j) = rs ! j)"
proof (induction ls rs i ps rule: matches_loop.induct)
  case (1 ls rs i ps)
  show ?case
  proof (cases "i < length ls")
    case False
    then show ?thesis by (subst matches_loop.simps) auto
  next
    case True
    note split = from_index_split [OF True, of "\<lambda>j. \<not> param (ls ! j) \<longrightarrow> name (ls ! j) = rs ! j"]
    show ?thesis
    proof (cases "param (ls ! i)")
      case p: True
      show ?thesis
      proof (cases "name (ls ! i) = ''*''")
        case star: True
        have run: "matches_loop ls rs i ps =
            matches_loop ls rs (i + 1) (set_property ps (name (ls ! i)) (join ''/'' (drop i rs)))"
          using True p star by (subst matches_loop.simps) simp
        show ?thesis
          unfolding run split "1.IH"(1) [OF True p star] using p by simp
      next
        case nostar: False
        have run: "matches_loop ls rs i ps =
            matches_loop ls rs (i + 1) (set_property ps (name (ls ! i)) (rs ! i))"
          using True p nostar by (subst matches_loop.simps) simp
        show ?thesis
          unfolding run split "1.IH"(2) [OF True p nostar] using p by simp
      qed
    next
      case np: False
      show ?thesis
      proof (cases "name (ls ! i) = rs ! i")
        case eq: True
        have run: "matches_loop ls rs i ps = matches_loop ls rs (i + 1) ps"
          using True np eq by (subst matches_loop.simps) simp
        have neq: "\<not> name (ls ! i) \<noteq> rs ! i" using eq by simp
        show ?thesis
          unfolding run split "1.IH"(3) [OF True np neq] using eq by simp
      next
        case False
        have run: "matches_loop ls rs i ps = (False, Map.empty)"
          using True np False by (subst matches_loop.simps) simp
        show ?thesis
          unfolding run split using np False by simp
      qed
    qed
  qed
qed

text \<open>A key that no parameter part from \<open>i\<close> on binds keeps the value it had.\<close>

lemma matches_loop_keeps:
  "fst (matches_loop ls rs i ps) \<Longrightarrow>
     (\<forall>j. i \<le> j \<and> j < length ls \<longrightarrow> param (ls ! j) \<longrightarrow> name (ls ! j) \<noteq> k) \<Longrightarrow>
     snd (matches_loop ls rs i ps) k = ps k"
proof (induction ls rs i ps rule: matches_loop.induct)
  case (1 ls rs i ps)
  show ?case
  proof (cases "i < length ls")
    case False
    then show ?thesis by (subst matches_loop.simps) simp
  next
    case True
    have here: "param (ls ! i) \<longrightarrow> name (ls ! i) \<noteq> k"
      using "1.prems"(2) True by auto
    have later: "\<forall>j. i + 1 \<le> j \<and> j < length ls \<longrightarrow> param (ls ! j) \<longrightarrow> name (ls ! j) \<noteq> k"
      using "1.prems"(2) by auto
    show ?thesis
    proof (cases "param (ls ! i)")
      case p: True
      show ?thesis
      proof (cases "name (ls ! i) = ''*''")
        case star: True
        have run: "matches_loop ls rs i ps =
            matches_loop ls rs (i + 1) (set_property ps (name (ls ! i)) (join ''/'' (drop i rs)))"
          using True p star by (subst matches_loop.simps) simp
        from "1.prems"(1) have "fst (matches_loop ls rs (i + 1) (set_property ps (name (ls ! i)) (join ''/'' (drop i rs))))"
          unfolding run .
        from "1.IH"(1) [OF True p star this later]
        have step: "snd (matches_loop ls rs (i + 1) (set_property ps (name (ls ! i)) (join ''/'' (drop i rs)))) k =
            (set_property ps (name (ls ! i)) (join ''/'' (drop i rs))) k" .
        have keep: "(set_property ps (name (ls ! i)) (join ''/'' (drop i rs))) k = ps k"
          using here p by (simp add: set_property_def)
        show ?thesis
          unfolding run using step keep by (rule trans)
      next
        case nostar: False
        have run: "matches_loop ls rs i ps =
            matches_loop ls rs (i + 1) (set_property ps (name (ls ! i)) (rs ! i))"
          using True p nostar by (subst matches_loop.simps) simp
        from "1.prems"(1) have "fst (matches_loop ls rs (i + 1) (set_property ps (name (ls ! i)) (rs ! i)))"
          unfolding run .
        from "1.IH"(2) [OF True p nostar this later]
        have step: "snd (matches_loop ls rs (i + 1) (set_property ps (name (ls ! i)) (rs ! i))) k =
            (set_property ps (name (ls ! i)) (rs ! i)) k" .
        have keep: "(set_property ps (name (ls ! i)) (rs ! i)) k = ps k"
          using here p by (simp add: set_property_def)
        show ?thesis
          unfolding run using step keep by (rule trans)
      qed
    next
      case np: False
      show ?thesis
      proof (cases "name (ls ! i) = rs ! i")
        case eq: True
        have run: "matches_loop ls rs i ps = matches_loop ls rs (i + 1) ps"
          using True np eq by (subst matches_loop.simps) simp
        from "1.prems"(1) have f: "fst (matches_loop ls rs (i + 1) ps)"
          unfolding run .
        have neq: "\<not> name (ls ! i) \<noteq> rs ! i" using eq by simp
        show ?thesis
          unfolding run by (rule "1.IH"(3) [OF True np neq f later])
      next
        case False
        have "matches_loop ls rs i ps = (False, Map.empty)"
          using True np False by (subst matches_loop.simps) simp
        with "1.prems"(1) show ?thesis by simp
      qed
    qed
  qed
qed

text \<open>
  On success, a Wildcard part at \<open>w\<close> that no later Wildcard part follows leaves \<open>*\<close>
  bound to the join of the request segments from \<open>w\<close> on.
\<close>

lemma matches_loop_wildcard:
  "fst (matches_loop ls rs i ps) \<Longrightarrow> i \<le> w \<Longrightarrow> w < length ls \<Longrightarrow>
     param (ls ! w) \<Longrightarrow> name (ls ! w) = ''*'' \<Longrightarrow>
     (\<forall>j. w < j \<and> j < length ls \<longrightarrow> param (ls ! j) \<longrightarrow> name (ls ! j) \<noteq> ''*'') \<Longrightarrow>
     snd (matches_loop ls rs i ps) ''*'' = Some (join ''/'' (drop w rs))"
proof (induction ls rs i ps rule: matches_loop.induct)
  case (1 ls rs i ps)
  from "1.prems" have lt: "i < length ls" by simp
  show ?case
  proof (cases "i = w")
    case True
    have run: "matches_loop ls rs i ps =
        matches_loop ls rs (i + 1) (set_property ps ''*'' (join ''/'' (drop i rs)))"
      using lt True "1.prems"(4,5) by (subst matches_loop.simps) simp
    from "1.prems"(1) have f: "fst (matches_loop ls rs (i + 1) (set_property ps ''*'' (join ''/'' (drop i rs))))"
      unfolding run .
    have later: "\<forall>j. i + 1 \<le> j \<and> j < length ls \<longrightarrow> param (ls ! j) \<longrightarrow> name (ls ! j) \<noteq> ''*''"
      using "1.prems"(6) True by auto
    from matches_loop_keeps [OF f later]
    have "snd (matches_loop ls rs (i + 1) (set_property ps ''*'' (join ''/'' (drop i rs)))) ''*'' =
        (set_property ps ''*'' (join ''/'' (drop i rs))) ''*''" .
    then have "snd (matches_loop ls rs i ps) ''*'' = Some (join ''/'' (drop i rs))"
      unfolding run by (simp add: set_property_def)
    with True show ?thesis by simp
  next
    case False
    with "1.prems"(2) have le: "i + 1 \<le> w" by simp
    show ?thesis
    proof (cases "param (ls ! i)")
      case p: True
      show ?thesis
      proof (cases "name (ls ! i) = ''*''")
        case star: True
        have run: "matches_loop ls rs i ps =
            matches_loop ls rs (i + 1) (set_property ps (name (ls ! i)) (join ''/'' (drop i rs)))"
          using lt p star by (subst matches_loop.simps) simp
        from "1.prems"(1) have f: "fst (matches_loop ls rs (i + 1) (set_property ps (name (ls ! i)) (join ''/'' (drop i rs))))"
          unfolding run .
        show ?thesis
          unfolding run by (rule "1.IH"(1) [OF lt p star f le "1.prems"(3,4,5,6)])
      next
        case nostar: False
        have run: "matches_loop ls rs i ps =
            matches_loop ls rs (i + 1) (set_property ps (name (ls ! i)) (rs ! i))"
          using lt p nostar by (subst matches_loop.simps) simp
        from "1.prems"(1) have f: "fst (matches_loop ls rs (i + 1) (set_property ps (name (ls ! i)) (rs ! i)))"
          unfolding run .
        show ?thesis
          unfolding run by (rule "1.IH"(2) [OF lt p nostar f le "1.prems"(3,4,5,6)])
      qed
    next
      case np: False
      show ?thesis
      proof (cases "name (ls ! i) = rs ! i")
        case eq: True
        have run: "matches_loop ls rs i ps = matches_loop ls rs (i + 1) ps"
          using lt np eq by (subst matches_loop.simps) simp
        from "1.prems"(1) have f: "fst (matches_loop ls rs (i + 1) ps)"
          unfolding run .
        have neq: "\<not> name (ls ! i) \<noteq> rs ! i" using eq by simp
        show ?thesis
          unfolding run by (rule "1.IH"(3) [OF lt np neq f le "1.prems"(3,4,5,6)])
      next
        case False
        have "matches_loop ls rs i ps = (False, Map.empty)"
          using lt np False by (subst matches_loop.simps) simp
        with "1.prems"(1) show ?thesis by simp
      qed
    qed
  qed
qed

section \<open>Facts about compiled routes\<close>

lemma count_concat_split:
  "c \<noteq> sep \<Longrightarrow> count_list (concat (split sep s)) c = count_list s c"
proof (induction s)
  case Nil
  then show ?case by simp
next
  case (Cons x xs)
  then show ?case
    using split_not_Nil [of sep xs] by (cases "split sep xs") auto
qed

lemma concat_filter_nonempty: "concat (filter (\<lambda>i. i \<noteq> []) xss) = concat xss"
  by (induction xss) auto

lemma count_concat_segments:
  "c \<noteq> CHR ''/'' \<Longrightarrow> count_list (concat (segments pat)) c = count_list pat c"
  by (simp add: segments_def concat_filter_nonempty count_concat_split)

lemma member_count_concat:
  "j < length xss \<Longrightarrow> c \<in> set (xss ! j) \<Longrightarrow> 1 \<le> count_list (concat xss) c"
proof -
  assume j: "j < length xss" and c: "c \<in> set (xss ! j)"
  from j have "xss ! j \<in> set xss" by simp
  with c have "c \<in> set (concat xss)" by auto
  then have "count_list (concat xss) c \<noteq> 0" by (simp add: count_list_0_iff)
  then show ?thesis by simp
qed

lemma two_members_count:
  "i < j \<Longrightarrow> j < length xss \<Longrightarrow> c \<in> set (xss ! i) \<Longrightarrow> c \<in> set (xss ! j) \<Longrightarrow>
     2 \<le> count_list (concat xss) c"
proof (induction xss arbitrary: i j)
  case Nil
  then show ?case by simp
next
  case (Cons xs xss)
  from Cons.prems(1) obtain j' where j: "j = Suc j'" by (cases j) auto
  show ?case
  proof (cases i)
    case 0
    with Cons.prems have here: "c \<in> set xs" by simp
    then have "count_list xs c \<noteq> 0" by (simp add: count_list_0_iff)
    moreover have "1 \<le> count_list (concat xss) c"
      using Cons.prems j by (intro member_count_concat [of j']) simp_all
    ultimately show ?thesis by simp
  next
    case (Suc i')
    with Cons.prems j have "2 \<le> count_list (concat xss) c"
      by (intro Cons.IH [of i' j']) simp_all
    then show ?thesis by simp
  qed
qed

lemma compile_part_named_star:
  "compile_part s = Some p \<Longrightarrow> name p = ''*'' \<Longrightarrow> CHR ''*'' \<in> set s \<and> param p"
proof -
  assume c: "compile_part s = Some p" and n: "name p = ''*''"
  show ?thesis
  proof (cases "CHR '':'' \<in> set s")
    case True
    with c have p: "p = \<lparr>name = tl s, param = True\<rparr>"
      by (simp add: compile_part_def split: if_splits)
    with n have "tl s = ''*''" by simp
    then have "CHR ''*'' \<in> set (tl s)" by simp
    then have "CHR ''*'' \<in> set s" by (cases s) auto
    with p show ?thesis by simp
  next
    case False
    show ?thesis
    proof (cases "CHR ''*'' \<in> set s")
      case True
      with False c show ?thesis
        by (auto simp: compile_part_def split: if_splits)
    next
      case no: False
      with False c have "p = \<lparr>name = s, param = False\<rparr>"
        by (simp add: compile_part_def)
      with n no show ?thesis by simp
    qed
  qed
qed

text \<open>What a successful construction says about the pattern and the item.\<close>

lemma new_RouterItem_Inr:
  assumes "new_RouterItem m pat h t = Inr it"
  shows "pat \<noteq> []" and "count_list pat CHR ''*'' \<le> 1"
    and "\<forall>s \<in> set (segments pat). compile_part s \<noteq> None"
    and "parts it = map (\<lambda>s. the (compile_part s)) (segments pat)"
    and "variadic it = (CHR ''*'' \<in> set pat)"
    and "item_method it = m"
proof -
  from assms have a: "pat \<noteq> []"
    unfolding new_RouterItem_char by (auto split: if_splits)
  from assms a have b: "\<not> 1 < count_list pat CHR ''*''"
    unfolding new_RouterItem_char by (auto split: if_splits)
  from assms a b have c: "\<forall>s \<in> set (segments pat). compile_part s \<noteq> None"
    unfolding new_RouterItem_char by (auto split: if_splits)
  have "new_RouterItem m pat h t =
      Inr \<lparr>item_method = m, pattern = pat, handlers = h # t,
           parts = map (\<lambda>s. the (compile_part s)) (segments pat),
           variadic = (CHR ''*'' \<in> set pat)\<rparr>"
    using c by (simp only: new_RouterItem_char a b if_False) simp
  with assms have it: "it = \<lparr>item_method = m, pattern = pat, handlers = h # t,
           parts = map (\<lambda>s. the (compile_part s)) (segments pat),
           variadic = (CHR ''*'' \<in> set pat)\<rparr>" by simp
  show "pat \<noteq> []" by (rule a)
  show "count_list pat CHR ''*'' \<le> 1" using b by simp
  show "\<forall>s \<in> set (segments pat). compile_part s \<noteq> None" by (rule c)
  show "parts it = map (\<lambda>s. the (compile_part s)) (segments pat)" by (simp add: it)
  show "variadic it = (CHR ''*'' \<in> set pat)" by (simp add: it)
  show "item_method it = m" by (simp add: it)
qed

lemma compiled_star_part:
  assumes "new_RouterItem m pat h t = Inr it" and "i < length (parts it)"
    and "name (parts it ! i) = ''*''"
  shows "i < length (segments pat)" and "CHR ''*'' \<in> set (segments pat ! i)" and "param (parts it ! i)"
proof -
  note facts = new_RouterItem_Inr [OF assms(1)]
  from assms(2) facts(4) show i: "i < length (segments pat)" by simp
  then have "segments pat ! i \<in> set (segments pat)" by simp
  with facts(3) obtain p where p: "compile_part (segments pat ! i) = Some p" by auto
  with facts(4) i have "parts it ! i = p" by simp
  with compile_part_named_star [OF p] assms(3)
  show "CHR ''*'' \<in> set (segments pat ! i)" and "param (parts it ! i)" by simp_all
qed

text \<open>A compiled route has at most one part named \<open>*\<close>, and is variadic when it has one.\<close>

lemma compiled_star_unique:
  assumes "new_RouterItem m pat h t = Inr it"
    and "i < length (parts it)" and "name (parts it ! i) = ''*''"
    and "j < length (parts it)" and "name (parts it ! j) = ''*''"
  shows "i = j"
proof (rule ccontr)
  assume ne: "i \<noteq> j"
  note I = compiled_star_part [OF assms(1,2,3)]
  note J = compiled_star_part [OF assms(1,4,5)]
  have "2 \<le> count_list (concat (segments pat)) CHR ''*''"
  proof (cases "i < j")
    case True
    then show ?thesis using I J by (intro two_members_count [of i j]) simp_all
  next
    case False
    with ne have "j < i" by simp
    then show ?thesis using I J by (intro two_members_count [of j i]) simp_all
  qed
  then have "2 \<le> count_list pat CHR ''*''"
    by (simp add: count_concat_segments)
  with new_RouterItem_Inr(2) [OF assms(1)] show False by simp
qed

lemma compiled_star_variadic:
  assumes "new_RouterItem m pat h t = Inr it"
    and "i < length (parts it)" and "name (parts it ! i) = ''*''"
  shows "variadic it"
proof -
  note I = compiled_star_part [OF assms]
  have "1 \<le> count_list (concat (segments pat)) CHR ''*''"
    using I by (intro member_count_concat [of i]) simp_all
  then have "count_list pat CHR ''*'' \<noteq> 0"
    by (simp add: count_concat_segments)
  then have "CHR ''*'' \<in> set pat"
    by (simp add: count_list_0_iff)
  then show ?thesis by (simp add: new_RouterItem_Inr(5) [OF assms(1)])
qed

section \<open>Facts about dispatch\<close>

text \<open>The log a chain starts with is only ever extended.\<close>

lemma run_handlers_acc:
  "run_handlers ctx hs w log =
     (case run_handlers ctx hs w [] of (r, w', l) \<Rightarrow> (r, w', log @ l))"
proof (induction hs arbitrary: w log)
  case Nil
  then show ?case by simp
next
  case (Cons h rest)
  obtain out w1 where h: "h ctx w = (out, w1)" by (cases "h ctx w")
  show ?case
  proof (cases out)
    case Continued
    have "run_handlers ctx (h # rest) w log = run_handlers ctx rest w1 (log @ [(h, ctx, Continued)])"
      using h Continued by simp
    also have "\<dots> = (case run_handlers ctx rest w1 [] of
        (r, w', l) \<Rightarrow> (r, w', (log @ [(h, ctx, Continued)]) @ l))"
      by (rule Cons.IH)
    finally have left: "run_handlers ctx (h # rest) w log = (case run_handlers ctx rest w1 [] of
        (r, w', l) \<Rightarrow> (r, w', log @ (h, ctx, Continued) # l))"
      by simp
    have "run_handlers ctx (h # rest) w [] = run_handlers ctx rest w1 [(h, ctx, Continued)]"
      using h Continued by simp
    also have "\<dots> = (case run_handlers ctx rest w1 [] of
        (r, w', l) \<Rightarrow> (r, w', [(h, ctx, Continued)] @ l))"
      by (rule Cons.IH)
    finally have right: "run_handlers ctx (h # rest) w [] = (case run_handlers ctx rest w1 [] of
        (r, w', l) \<Rightarrow> (r, w', (h, ctx, Continued) # l))"
      by simp
    show ?thesis
      unfolding left right by (simp split: prod.splits)
  next
    case Stopped
    then show ?thesis using h by simp
  next
    case (Threw e)
    then show ?thesis using h by simp
  qed
qed

lemma run_handlers_Continued:
  assumes "h ctx w = (Continued, w1)"
  shows "run_handlers ctx (h # rest) w [] =
     (case run_handlers ctx rest w1 [] of (r, w', l) \<Rightarrow> (r, w', (h, ctx, Continued) # l))"
proof -
  have "run_handlers ctx (h # rest) w [] = run_handlers ctx rest w1 [(h, ctx, Continued)]"
    using assms by simp
  also have "\<dots> = (case run_handlers ctx rest w1 [] of
      (r, w', l) \<Rightarrow> (r, w', [(h, ctx, Continued)] @ l))"
    by (rule run_handlers_acc)
  finally show ?thesis by simp
qed

lemma run_handlers_Stopped:
  "h ctx w = (Stopped, w1) \<Longrightarrow> run_handlers ctx (h # rest) w [] = (None, w1, [(h, ctx, Stopped)])"
  by simp

lemma run_handlers_Threw:
  "h ctx w = (Threw e, w1) \<Longrightarrow> run_handlers ctx (h # rest) w [] = (Some e, w1, [(h, ctx, Threw e)])"
  by simp

text \<open>The calls logged are the handlers of the chain, in its order, each with the one context.\<close>

lemma log_prefix:
  "run_handlers ctx hs w [] = (r, w', l) \<Longrightarrow>
     length l \<le> length hs \<and> (\<forall>k < length l. fst (l ! k) = hs ! k \<and> fst (snd (l ! k)) = ctx)"
proof (induction hs arbitrary: w r w' l)
  case Nil
  then show ?case by simp
next
  case (Cons h rest)
  obtain out w1 where h: "h ctx w = (out, w1)" by (cases "h ctx w")
  show ?case
  proof (cases out)
    case Continued
    obtain r2 w2 l2 where rest: "run_handlers ctx rest w1 [] = (r2, w2, l2)"
      by (cases "run_handlers ctx rest w1 []") auto
    from Cons.prems have l: "l = (h, ctx, Continued) # l2"
      using run_handlers_Continued [of h ctx w w1 rest] h Continued rest by simp
    from Cons.IH [OF rest] show ?thesis
      unfolding l by (auto simp: nth_Cons split: nat.splits)
  next
    case Stopped
    with Cons.prems h show ?thesis by auto
  next
    case (Threw e)
    with Cons.prems h show ?thesis by auto
  qed
qed

text \<open>A call that did not end with \<open>next\<close> called is the last call logged.\<close>

lemma log_stops:
  "run_handlers ctx hs w [] = (r, w', l) \<Longrightarrow>
     \<forall>k < length l. snd (snd (l ! k)) \<noteq> Continued \<longrightarrow> length l = Suc k"
proof (induction hs arbitrary: w r w' l)
  case Nil
  then show ?case by simp
next
  case (Cons h rest)
  obtain out w1 where h: "h ctx w = (out, w1)" by (cases "h ctx w")
  show ?case
  proof (cases out)
    case Continued
    obtain r2 w2 l2 where rest: "run_handlers ctx rest w1 [] = (r2, w2, l2)"
      by (cases "run_handlers ctx rest w1 []") auto
    from Cons.prems have l: "l = (h, ctx, Continued) # l2"
      using run_handlers_Continued [of h ctx w w1 rest] h Continued rest by simp
    from Cons.IH [OF rest] show ?thesis
      unfolding l by (auto simp: nth_Cons split: nat.splits)
  next
    case Stopped
    with Cons.prems h show ?thesis by auto
  next
    case (Threw e)
    with Cons.prems h show ?thesis by auto
  qed
qed

text \<open>A call that ended with \<open>next\<close> called is followed by the call of the next handler, if there is one.\<close>

lemma log_continues:
  "run_handlers ctx hs w [] = (r, w', l) \<Longrightarrow>
     \<forall>k < length l. snd (snd (l ! k)) = Continued \<longrightarrow> Suc k < length hs \<longrightarrow> Suc k < length l"
proof (induction hs arbitrary: w r w' l)
  case Nil
  then show ?case by simp
next
  case (Cons h rest)
  obtain out w1 where h: "h ctx w = (out, w1)" by (cases "h ctx w")
  show ?case
  proof (cases out)
    case Continued
    obtain r2 w2 l2 where rest: "run_handlers ctx rest w1 [] = (r2, w2, l2)"
      by (cases "run_handlers ctx rest w1 []") auto
    from Cons.prems have l: "l = (h, ctx, Continued) # l2"
      using run_handlers_Continued [of h ctx w w1 rest] h Continued rest by simp
    have first: "l2 \<noteq> []" if "rest \<noteq> []"
    proof -
      from that obtain h2 rest2 where "rest = h2 # rest2" by (cases rest) auto
      with rest show ?thesis
        by (cases "h2 ctx w1"; cases "fst (h2 ctx w1)")
          (auto simp: run_handlers_acc [of ctx rest2 _ "[_]"] split: prod.splits)
    qed
    from Cons.IH [OF rest] first show ?thesis
      unfolding l by (auto simp: nth_Cons split: nat.splits)
  next
    case Stopped
    with Cons.prems h show ?thesis by auto
  next
    case (Threw e)
    with Cons.prems h show ?thesis by auto
  qed
qed

text \<open>An error escapes the chain exactly when a call threw.\<close>

lemma log_threw:
  "run_handlers ctx hs w [] = (r, w', l) \<Longrightarrow>
     (r = None) = (\<forall>c \<in> set l. \<forall>e. snd (snd c) \<noteq> Threw e)"
proof (induction hs arbitrary: w r w' l)
  case Nil
  then show ?case by simp
next
  case (Cons h rest)
  obtain out w1 where h: "h ctx w = (out, w1)" by (cases "h ctx w")
  show ?case
  proof (cases out)
    case Continued
    obtain r2 w2 l2 where rest: "run_handlers ctx rest w1 [] = (r2, w2, l2)"
      by (cases "run_handlers ctx rest w1 []") auto
    from Cons.prems have l: "l = (h, ctx, Continued) # l2" and r: "r = r2"
      using run_handlers_Continued [of h ctx w w1 rest] h Continued rest by simp_all
    from Cons.IH [OF rest] show ?thesis
      unfolding l r by simp
  next
    case Stopped
    with Cons.prems h show ?thesis by auto
  next
    case (Threw e)
    with Cons.prems h show ?thesis by auto
  qed
qed

text \<open>The scan over the table: nothing matches, or the first route that matches is run.\<close>

lemma process_routes_none:
  "\<forall>r \<in> set rs. \<not> fst (matches r meth ps) \<Longrightarrow>
     process_routes rs meth ps rq pr w = (Inr False, w, [])"
  by (induction rs) (simp_all add: Let_def)

lemma process_routes_first:
  "\<forall>r \<in> set pre. \<not> fst (matches r meth ps) \<Longrightarrow> fst (matches route meth ps) \<Longrightarrow>
     process_routes (pre @ route # post) meth ps rq pr w =
       (case run_handlers \<lparr>req = rq, props = pr, params = snd (matches route meth ps)\<rparr>
               (handlers route) w [] of
          (Some e, w', log) \<Rightarrow> (Inl e, w', log)
        | (None, w', log) \<Rightarrow> (Inr True, w', log))"
  by (induction pre) (simp_all add: Let_def)

text \<open>
  What the log says of the call at place \<open>k\<close> is how that handler ended on the
  world it was given: the world left by the handlers before it, run in order.
\<close>

lemma log_exact:
  "run_handlers ctx hs w [] = (r, w', l) \<Longrightarrow>
     \<forall>k < length l.
        l ! k = (hs ! k, ctx, fst ((hs ! k) ctx (foldl (\<lambda>v h. snd (h ctx v)) w (take k hs))))"
proof (induction hs arbitrary: w r w' l)
  case Nil
  then show ?case by simp
next
  case (Cons h rest)
  obtain out w1 where h: "h ctx w = (out, w1)" by (cases "h ctx w")
  show ?case
  proof (cases out)
    case Continued
    obtain r2 w2 l2 where rest: "run_handlers ctx rest w1 [] = (r2, w2, l2)"
      by (cases "run_handlers ctx rest w1 []") auto
    from Cons.prems have l: "l = (h, ctx, Continued) # l2"
      using run_handlers_Continued [of h ctx w w1 rest] h Continued rest by simp
    show ?thesis
    proof (intro allI impI)
      fix k
      assume k: "k < length l"
      show "l ! k = ((h # rest) ! k, ctx,
          fst (((h # rest) ! k) ctx (foldl (\<lambda>v h. snd (h ctx v)) w (take k (h # rest)))))"
      proof (cases k)
        case 0
        then show ?thesis using h Continued by (simp add: l)
      next
        case (Suc k')
        with k have "k' < length l2" by (simp add: l)
        with Cons.IH [OF rest] have "l2 ! k' =
            (rest ! k', ctx, fst ((rest ! k') ctx (foldl (\<lambda>v h. snd (h ctx v)) w1 (take k' rest))))"
          by blast
        then show ?thesis using Suc h by (simp add: l)
      qed
    qed
  next
    case Stopped
    with Cons.prems h show ?thesis by auto
  next
    case (Threw e)
    with Cons.prems h show ?thesis by auto
  qed
qed

text \<open>The first handler of a chain is always called.\<close>

lemma log_nonempty:
  "run_handlers ctx hs w [] = (r, w', l) \<Longrightarrow> hs \<noteq> [] \<Longrightarrow> l \<noteq> []"
proof (cases hs)
  case Nil
  assume "hs \<noteq> []"
  with Nil show ?thesis by simp
next
  case (Cons h rest)
  assume run: "run_handlers ctx hs w [] = (r, w', l)"
  obtain out w1 where h: "h ctx w = (out, w1)" by (cases "h ctx w")
  show ?thesis
  proof (cases out)
    case Continued
    obtain r2 w2 l2 where rest: "run_handlers ctx rest w1 [] = (r2, w2, l2)"
      by (cases "run_handlers ctx rest w1 []") auto
    from run Cons have "l = (h, ctx, Continued) # l2"
      using run_handlers_Continued [of h ctx w w1 rest] h Continued rest by simp
    then show ?thesis by simp
  next
    case Stopped
    with run Cons h show ?thesis by auto
  next
    case (Threw e)
    with run Cons h show ?thesis by auto
  qed
qed

text \<open>The world left by the chain is the world left by the handlers called.\<close>

lemma log_world:
  "run_handlers ctx hs w [] = (r, w', l) \<Longrightarrow>
     w' = foldl (\<lambda>v h. snd (h ctx v)) w (take (length l) hs)"
proof (induction hs arbitrary: w r w' l)
  case Nil
  then show ?case by simp
next
  case (Cons h rest)
  obtain out w1 where h: "h ctx w = (out, w1)" by (cases "h ctx w")
  show ?case
  proof (cases out)
    case Continued
    obtain r2 w2 l2 where rest: "run_handlers ctx rest w1 [] = (r2, w2, l2)"
      by (cases "run_handlers ctx rest w1 []") auto
    from Cons.prems have l: "l = (h, ctx, Continued) # l2" and w': "w' = w2"
      using run_handlers_Continued [of h ctx w w1 rest] h Continued rest by simp_all
    from Cons.IH [OF rest] show ?thesis
      using h by (simp add: l w')
  next
    case Stopped
    with Cons.prems h show ?thesis by auto
  next
    case (Threw e)
    with Cons.prems h show ?thesis by auto
  qed
qed

lemma process_matched:
  assumes "pathname (req_url rq) = Inr path"
    and "routes rt = pre @ route # post"
    and "\<forall>r \<in> set pre. \<not> fst (matches r (req_method rq) (segments path))"
    and "fst (matches route (req_method rq) (segments path))"
  shows "process pathname rt rq pr w =
       (case run_handlers
               \<lparr>req = rq, props = pr, params = snd (matches route (req_method rq) (segments path))\<rparr>
               (handlers route) w [] of
          (Some e, w', log) \<Rightarrow> (Inl e, w', log)
        | (None, w', log) \<Rightarrow> (Inr True, w', log))"
  using assms by (simp add: process_def process_routes_first)

section \<open>Facts about the body helpers\<close>

text \<open>Reading the body touches only the two caches on the request.\<close>

lemma readBodyAsText_frame:
  "readBodyAsText w = (res, w1) \<Longrightarrow>
     responded w1 = responded w \<and> props_fields w1 = props_fields w \<and>
     store_throws w1 = store_throws w"
  by (auto simp: readBodyAsText_def split: option.splits sum.splits)

lemma readBodyAsJSON_frame:
  assumes "readBodyAsJSON h rq w = (res, w1)"
  shows "responded w1 = responded w \<and> props_fields w1 = props_fields w \<and>
           store_throws w1 = store_throws w"
proof (cases "bodyjson w")
  case (Some v)
  with assms show ?thesis by (simp add: readBodyAsJSON_def)
next
  case None
  obtain r0 w0 where rd: "readBodyAsText w = (r0, w0)" by (cases "readBodyAsText w")
  note frame = readBodyAsText_frame [OF rd]
  show ?thesis
  proof (cases r0)
    case (Inl e)
    with assms None rd frame show ?thesis by (simp add: readBodyAsJSON_def)
  next
    case (Inr t)
    with assms None rd frame show ?thesis
      by (auto simp: readBodyAsJSON_def Let_def split: if_splits sum.splits)
  qed
qed

section \<open>What the conflict check does guarantee\<close>

lemma method_string_inject: "method_string a = method_string b \<Longrightarrow> a = b"
  by (cases a; cases b) simp_all

text \<open>
  When the loop of \<open>conflicts\<close> answers no from index \<open>i\<close>, either two literal
  parts at a common index differ, or the patterns differ in length and no part
  at a common index from \<open>i\<close> on is named \<open>*\<close>.
\<close>

lemma conflicts_loop_False:
  "\<not> conflicts_loop ls rs i \<Longrightarrow>
     (\<exists>j. i \<le> j \<and> j < length ls \<and> j < length rs \<and>
          \<not> param (ls ! j) \<and> \<not> param (rs ! j) \<and> name (ls ! j) \<noteq> name (rs ! j)) \<or>
     (length ls \<noteq> length rs \<and>
      (\<forall>k. i \<le> k \<and> k < length ls \<and> k < length rs \<longrightarrow>
           name (ls ! k) \<noteq> ''*'' \<and> name (rs ! k) \<noteq> ''*''))"
proof (induction ls rs i rule: conflicts_loop.induct)
  case (1 ls rs i)
  let ?clash = "\<lambda>i. \<exists>j. i \<le> j \<and> j < length ls \<and> j < length rs \<and>
          \<not> param (ls ! j) \<and> \<not> param (rs ! j) \<and> name (ls ! j) \<noteq> name (rs ! j)"
  let ?short = "\<lambda>i. length ls \<noteq> length rs \<and>
      (\<forall>k. i \<le> k \<and> k < length ls \<and> k < length rs \<longrightarrow>
           name (ls ! k) \<noteq> ''*'' \<and> name (rs ! k) \<noteq> ''*'')"
  have step: "?clash i \<or> ?short i" if later: "?clash (i + 1) \<or> ?short (i + 1)"
    and here: "name (ls ! i) \<noteq> ''*''" "name (rs ! i) \<noteq> ''*''"
  proof -
    from later show ?thesis
    proof
      assume "?clash (i + 1)"
      then obtain j where "i + 1 \<le> j" "j < length ls" "j < length rs"
        "\<not> param (ls ! j)" "\<not> param (rs ! j)" "name (ls ! j) \<noteq> name (rs ! j)" by blast
      then have "?clash i" by (intro exI [of _ j]) simp
      then show ?thesis ..
    next
      assume s: "?short (i + 1)"
      have "name (ls ! k) \<noteq> ''*'' \<and> name (rs ! k) \<noteq> ''*''"
        if "i \<le> k \<and> k < length ls \<and> k < length rs" for k
      proof (cases "k = i")
        case True
        with here show ?thesis by simp
      next
        case False
        with that have "i + 1 \<le> k \<and> k < length ls \<and> k < length rs" by simp
        with s show ?thesis by blast
      qed
      with s have "?short i" by blast
      then show ?thesis ..
    qed
  qed
  show ?case
  proof (cases "i < max (length ls) (length rs)")
    case False
    then have "conflicts_loop ls rs i" by (subst conflicts_loop.simps) simp
    with "1.prems" show ?thesis by simp
  next
    case lt: True
    show ?thesis
    proof (cases "length ls \<le> i \<or> length rs \<le> i")
      case True
      with lt have "?short i" by auto
      then show ?thesis ..
    next
      case both: False
      show ?thesis
      proof (cases "name (ls ! i) = ''*'' \<or> name (rs ! i) = ''*''")
        case True
        with lt both have "conflicts_loop ls rs i" by (subst conflicts_loop.simps) simp
        with "1.prems" show ?thesis by simp
      next
        case nostar: False
        show ?thesis
        proof (cases "param (ls ! i) \<or> param (rs ! i)")
          case p: True
          have "conflicts_loop ls rs i = conflicts_loop ls rs (i + 1)"
            using lt both nostar p by (subst conflicts_loop.simps) simp
          with "1.prems" have "\<not> conflicts_loop ls rs (i + 1)" by simp
          from "1.IH"(1) [OF lt both nostar p this] nostar show ?thesis
            by (intro step) simp_all
        next
          case np: False
          show ?thesis
          proof (cases "name (ls ! i) \<noteq> name (rs ! i)")
            case True
            with both np have "?clash i" by (intro exI [of _ i]) simp
            then show ?thesis ..
          next
            case same: False
            have "conflicts_loop ls rs i = conflicts_loop ls rs (i + 1)"
              using lt both nostar np same by (subst conflicts_loop.simps) simp
            with "1.prems" have "\<not> conflicts_loop ls rs (i + 1)" by simp
            from "1.IH"(2) [OF lt both nostar np same this] nostar show ?thesis
              by (intro step) simp_all
          qed
        qed
      qed
    qed
  qed
qed

text \<open>What a successful match says about the request.\<close>

lemma matches_fst:
  "fst (matches it meth rs) \<longleftrightarrow>
     toUpperCase meth = method_string (item_method it) \<and>
     (if variadic it then length (parts it) \<le> length rs else length (parts it) = length rs) \<and>
     (\<forall>j < length (parts it). \<not> param (parts it ! j) \<longrightarrow> name (parts it ! j) = rs ! j)"
proof -
  have walk: "fst (matches_loop (parts it) rs 0 Map.empty) \<longleftrightarrow>
      (\<forall>j < length (parts it). \<not> param (parts it ! j) \<longrightarrow> name (parts it ! j) = rs ! j)"
    by (simp add: matches_loop_fst)
  show ?thesis
    unfolding matches_def using walk by auto
qed

text \<open>
  Two routes that do not conflict never match the same request, as long as each
  variadic one has a part named \<open>*\<close>.
\<close>

lemma no_conflict_no_common_request:
  assumes nc: "\<not> conflicts a b"
    and wa: "variadic a \<longrightarrow> (\<exists>k < length (parts a). name (parts a ! k) = ''*'')"
    and wb: "variadic b \<longrightarrow> (\<exists>k < length (parts b). name (parts b ! k) = ''*'')"
  shows "\<not> (fst (matches a meth rs) \<and> fst (matches b meth rs))"
proof
  assume both: "fst (matches a meth rs) \<and> fst (matches b meth rs)"
  then have ma: "fst (matches a meth rs)" and mb: "fst (matches b meth rs)" by simp_all
  note A = ma [unfolded matches_fst]
  note B = mb [unfolded matches_fst]
  from A B have "method_string (item_method a) = method_string (item_method b)" by simp
  then have "item_method a = item_method b" by (rule method_string_inject)
  with nc have loop: "\<not> conflicts_loop (parts a) (parts b) 0" by (simp add: conflicts_def)
  from conflicts_loop_False [OF loop] show False
  proof
    assume "\<exists>j. 0 \<le> j \<and> j < length (parts a) \<and> j < length (parts b) \<and>
          \<not> param (parts a ! j) \<and> \<not> param (parts b ! j) \<and> name (parts a ! j) \<noteq> name (parts b ! j)"
    then obtain j where j: "j < length (parts a)" "j < length (parts b)"
      "\<not> param (parts a ! j)" "\<not> param (parts b ! j)" "name (parts a ! j) \<noteq> name (parts b ! j)"
      by blast
    from A j have "name (parts a ! j) = rs ! j" by blast
    moreover from B j have "name (parts b ! j) = rs ! j" by blast
    ultimately show False using j(5) by simp
  next
    assume short: "length (parts a) \<noteq> length (parts b) \<and>
      (\<forall>k. 0 \<le> k \<and> k < length (parts a) \<and> k < length (parts b) \<longrightarrow>
           name (parts a ! k) \<noteq> ''*'' \<and> name (parts b ! k) \<noteq> ''*'')"
    show False
    proof (cases "length (parts a) < length (parts b)")
      case True
      with short have "\<forall>k < length (parts a). name (parts a ! k) \<noteq> ''*''" by auto
      with wa have "\<not> variadic a" by blast
      with A have "length (parts a) = length rs" by simp
      moreover from B have "length (parts b) \<le> length rs" by (simp split: if_splits)
      ultimately show False using True by simp
    next
      case False
      with short have lt: "length (parts b) < length (parts a)" by simp
      with short have "\<forall>k < length (parts b). name (parts b ! k) \<noteq> ''*''" by auto
      with wb have "\<not> variadic b" by blast
      with B have "length (parts b) = length rs" by simp
      moreover from A have "length (parts a) \<le> length rs" by (simp split: if_splits)
      ultimately show False using lt by simp
    qed
  qed
qed

text \<open>A successful registration appends the compiled route, which conflicts with none before it.\<close>

lemma add_Inr:
  assumes "add r m pat h t = (Inr (), r')"
  shows "\<exists>it. new_RouterItem m pat h t = Inr it \<and> routes r' = routes r @ [it] \<and>
           (\<forall>i \<in> set (routes r). \<not> conflicts it i)"
proof (cases "new_RouterItem m pat h t")
  case (Inl e)
  with assms show ?thesis by (simp add: add_def)
next
  case (Inr it)
  show ?thesis
  proof (cases "add_check it (routes r)")
    case None
    with assms Inr have "routes r' = routes r @ [it]" by (auto simp: add_def)
    moreover from None have "\<forall>i \<in> set (routes r). \<not> conflicts it i"
      by (simp add: add_check_None)
    ultimately show ?thesis using Inr by blast
  next
    case (Some e)
    with assms Inr show ?thesis by (simp add: add_def)
  qed
qed

lemma registered_pairwise:
  "registered r \<Longrightarrow>
     \<forall>i j. i < j \<and> j < length (routes r) \<longrightarrow> \<not> conflicts (routes r ! j) (routes r ! i)"
proof (induction rule: registered.induct)
  case fresh
  then show ?case by (simp add: new_Router_def)
next
  case (added r m pat h t r')
  from add_Inr [OF added.hyps(2)] obtain it where
    rs: "routes r' = routes r @ [it]" and nc: "\<forall>i \<in> set (routes r). \<not> conflicts it i"
    by blast
  show ?case
  proof (intro allI impI)
    fix i j
    assume ij: "i < j \<and> j < length (routes r')"
    show "\<not> conflicts (routes r' ! j) (routes r' ! i)"
    proof (cases "j < length (routes r)")
      case True
      with ij added.IH show ?thesis by (simp add: rs nth_append)
    next
      case False
      with ij rs have j: "j = length (routes r)" by simp
      with ij have "routes r ! i \<in> set (routes r)" by simp
      with nc have "\<not> conflicts it (routes r ! i)" by blast
      with j ij show ?thesis by (simp add: rs nth_append)
    qed
  qed
qed

text \<open>
  So in a table built by successful registrations, two routes at different
  places never match the same request, as long as each of the two, if variadic,
  has a part named \<open>*\<close>.
\<close>

lemma registered_unambiguous:
  assumes "registered r" and "i < j" and "j < length (routes r)"
    and "variadic (routes r ! i) \<longrightarrow>
           (\<exists>k < length (parts (routes r ! i)). name (parts (routes r ! i) ! k) = ''*'')"
    and "variadic (routes r ! j) \<longrightarrow>
           (\<exists>k < length (parts (routes r ! j)). name (parts (routes r ! j) ! k) = ''*'')"
  shows "\<not> (fst (matches (routes r ! i) meth rs) \<and> fst (matches (routes r ! j) meth rs))"
proof -
  from registered_pairwise [OF assms(1)] assms(2,3)
  have "\<not> conflicts (routes r ! j) (routes r ! i)" by blast
  from no_conflict_no_common_request [OF this assms(5) assms(4), of meth rs]
  show ?thesis by blast
qed

text \<open>
  A compiled route that is variadic has a part named \<open>*\<close> when every segment of
  its pattern that holds the marker is \<open>*\<close> or \<open>:*\<close>.
\<close>

lemma compiled_variadic_wildcard:
  assumes item: "new_RouterItem m pat h t = Inr it"
    and plain: "\<forall>s \<in> set (segments pat). CHR ''*'' \<in> set s \<longrightarrow> s = ''*'' \<or> s = '':*''"
    and v: "variadic it"
  shows "\<exists>k < length (parts it). name (parts it ! k) = ''*''"
proof -
  note facts = new_RouterItem_Inr [OF item]
  from v facts(5) have "CHR ''*'' \<in> set pat" by simp
  then have "count_list pat CHR ''*'' \<noteq> 0" by (simp add: count_list_0_iff)
  then have "count_list (concat (segments pat)) CHR ''*'' \<noteq> 0"
    by (simp add: count_concat_segments)
  then have "CHR ''*'' \<in> set (concat (segments pat))" by (simp add: count_list_0_iff)
  then obtain s where s: "s \<in> set (segments pat)" "CHR ''*'' \<in> set s" by auto
  then obtain k where k: "k < length (segments pat)" "segments pat ! k = s"
    by (auto simp: in_set_conv_nth)
  from plain s have "s = ''*'' \<or> s = '':*''" by blast
  then have "compile_part s = Some \<lparr>name = ''*'', param = True\<rparr>"
    by (auto simp: compile_part_def)
  with k facts(4) have "name (parts it ! k) = ''*''" by simp
  with k facts(4) show ?thesis by auto
qed
section \<open>Matching the documented examples (C2)\<close>

text \<open>
  C2, as stated, has \<open>/files/*\<close> match the path \<open>/files\<close> with \<open>*\<close> bound to
  the empty string.  The pattern has two segments and the path one, and the length
  test of \<open>matches\<close> asks for at least as many request segments as pattern
  segments: the match fails.
\<close>

theorem files_wildcard_bare_path_counterexample:
  "\<not> isl (new_RouterItem GET ''/files/*'' () []) \<and>
   \<not> fst (matches (projr (new_RouterItem GET ''/files/*'' () [])) ''GET'' (segments ''/files''))"
  by (simp add: eval_defs)

text \<open>
  C2, amended: for every registered method, used as the request method, the
  pattern \<open>/files/*\<close> compiles and matches \<open>/files/a\<close> and \<open>/files/a/b/c\<close>, binding
  \<open>*\<close> to \<open>a\<close> and to \<open>a/b/c\<close>, and does not match \<open>/files\<close>; the pattern
  \<open>/files/:name\<close> compiles and matches \<open>/files/a\<close>, binding \<open>name\<close> to \<open>a\<close>, and
  does not match \<open>/files/a/b\<close>.
\<close>

theorem files_patterns_match:
  "\<not> isl (new_RouterItem m ''/files/*'' h t) \<and>
   \<not> fst (matches (projr (new_RouterItem m ''/files/*'' h t)) (method_string m) (segments ''/files'')) \<and>
   matches (projr (new_RouterItem m ''/files/*'' h t)) (method_string m) (segments ''/files/a'')
     = (True, [''*'' \<mapsto> ''a'']) \<and>
   matches (projr (new_RouterItem m ''/files/*'' h t)) (method_string m) (segments ''/files/a/b/c'')
     = (True, [''*'' \<mapsto> ''a/b/c'']) \<and>
   \<not> isl (new_RouterItem m ''/files/:name'' h t) \<and>
   matches (projr (new_RouterItem m ''/files/:name'' h t)) (method_string m) (segments ''/files/a'')
     = (True, [''name'' \<mapsto> ''a'']) \<and>
   \<not> fst (matches (projr (new_RouterItem m ''/files/:name'' h t)) (method_string m) (segments ''/files/a/b''))"
  by (simp add: new_RouterItem_def segments_def str_includes_def matches_def matches_loop.simps
      set_property_def toUpperCase_method_string)


section \<open>The variadic flag (C8)\<close>

text \<open>
  C8 says the variadic flag is set exactly when a Wildcard segment was produced.
  The constructor sets it from the pattern string, \<open>pattern.includes('*')\<close>, and
  the branch for a segment with \<open>:\<close> does not look for \<open>*\<close> in the name, as the
  branch for a segment without \<open>:\<close> does.  So \<open>/:a*\<close> compiles to one named
  segment \<open>a*\<close>, no Wildcard, and the flag is set.
\<close>

theorem param_with_star_variadic_without_wildcard:
  "new_RouterItem GET ''/:a*'' () [] =
     Inr \<lparr>item_method = GET, pattern = ''/:a*'', handlers = [()],
          parts = [\<lparr>name = ''a*'', param = True\<rparr>], variadic = True\<rparr>"
  by (simp add: eval_defs)


section \<open>Registered routes and ambiguity (C1)\<close>

text \<open>
  C1 says no two routes of a table built by successful registrations match the
  same request.  The route \<open>/:a*\<close> of C8 is variadic with a single named
  segment, so it matches every path of one segment or more; \<open>conflicts\<close> sees
  no \<open>*\<close> segment in it and stops at the end of the shorter pattern.  Both
  \<open>GET /:a*\<close> and \<open>GET /x/y\<close> register, and both match \<open>GET /x/y\<close>.
  Routes of that kind apart, the invariant holds: see \<open>registered_unambiguous\<close>
  and \<open>compiled_variadic_wildcard\<close> above.
\<close>

theorem ambiguous_routes_registered:
  "fst (Router_GET new_Router ''/:a*'' () []) = Inr () \<and>
   fst (Router_GET (snd (Router_GET new_Router ''/:a*'' () [])) ''/x/y'' () []) = Inr () \<and>
   map pattern (routes (snd (Router_GET (snd (Router_GET new_Router ''/:a*'' () [])) ''/x/y'' () [])))
     = [''/:a*'', ''/x/y''] \<and>
   map (\<lambda>i. fst (matches i ''GET'' (segments ''/x/y'')))
     (routes (snd (Router_GET (snd (Router_GET new_Router ''/:a*'' () [])) ''/x/y'' () [])))
     = [True, True]"
  by (simp add: eval_defs)

section \<open>Conflicts at registration (C7)\<close>

text \<open>
  C7: on any router where \<open>/users/:id\<close> has just been registered for a method,
  registering \<open>/users/active\<close> for the same method throws the conflict error and
  leaves the router as it was; \<open>conflicts\<close> is false whenever the two methods
  differ; in particular \<open>GET /a/:x\<close> and \<open>POST /a/:x\<close> do not conflict, and
  both register on a fresh router.
\<close>

theorem users_conflict_methods_never:
  "(add r m ''/users/:id'' h t = (Inr (), r') \<longrightarrow>
      (\<exists>prev. add r' m ''/users/active'' h' t' = (Inl (Conflicts ''/users/active'' prev), r'))) \<and>
   (item_method a \<noteq> item_method b \<longrightarrow> \<not> conflicts a b) \<and>
   \<not> conflicts (projr (new_RouterItem GET ''/a/:x'' h t)) (projr (new_RouterItem POST ''/a/:x'' h' t')) \<and>
   fst (Router_GET new_Router ''/a/:x'' h t) = Inr () \<and>
   fst (Router_POST (snd (Router_GET new_Router ''/a/:x'' h t)) ''/a/:x'' h' t') = Inr ()"
proof -
  let ?id = "\<lparr>item_method = m, pattern = ''/users/:id'', handlers = h # t,
              parts = [\<lparr>name = ''users'', param = False\<rparr>, \<lparr>name = ''id'', param = True\<rparr>],
              variadic = False\<rparr>"
  let ?active = "\<lparr>item_method = m, pattern = ''/users/active'', handlers = h' # t',
              parts = [\<lparr>name = ''users'', param = False\<rparr>, \<lparr>name = ''active'', param = False\<rparr>],
              variadic = False\<rparr>"
  have id: "new_RouterItem m ''/users/:id'' h t = Inr ?id"
    by (simp add: new_RouterItem_def segments_def str_includes_def)
  have active: "new_RouterItem m ''/users/active'' h' t' = Inr ?active"
    by (simp add: new_RouterItem_def segments_def str_includes_def)
  have clash: "conflicts ?active ?id"
    by (simp add: conflicts_def conflicts_loop.simps)
  have first: "\<exists>prev. add r' m ''/users/active'' h' t' = (Inl (Conflicts ''/users/active'' prev), r')"
    if ok: "add r m ''/users/:id'' h t = (Inr (), r')"
  proof -
    from ok id have "?id \<in> set (routes r')"
      by (auto simp: add_def split: option.splits)
    with clash have ex: "\<exists>i \<in> set (routes r'). conflicts ?active i" by blast
    then have "add_check ?active (routes r') \<noteq> None"
      by (simp add: add_check_None)
    then obtain e where e: "add_check ?active (routes r') = Some e" by blast
    from add_check_Some [OF e] obtain prev where "e = Conflicts ''/users/active'' prev"
      by auto
    with e active show ?thesis by (auto simp: add_def)
  qed
  have third: "\<not> conflicts (projr (new_RouterItem GET ''/a/:x'' h t)) (projr (new_RouterItem POST ''/a/:x'' h' t'))"
    by (simp add: new_RouterItem_def segments_def str_includes_def conflicts_def)
  have fourth: "fst (Router_GET new_Router ''/a/:x'' h t) = Inr () \<and>
   fst (Router_POST (snd (Router_GET new_Router ''/a/:x'' h t)) ''/a/:x'' h' t') = Inr ()"
    by (simp add: eval_defs)
  show ?thesis using first third fourth conflicts_methods_differ by blast
qed

text \<open>The theorem at \<open>PATCH\<close> on a fresh router, and at the two compiled \<open>/a/:x\<close> routes.\<close>

theorem users_conflict_methods_never_witness:
  "add new_Router PATCH ''/users/:id'' () [] =
     (Inr (), snd (add new_Router PATCH ''/users/:id'' () [])) \<and>
   (\<exists>prev. add (snd (add new_Router PATCH ''/users/:id'' () [])) PATCH ''/users/active'' () [()] =
      (Inl (Conflicts ''/users/active'' prev), snd (add new_Router PATCH ''/users/:id'' () []))) \<and>
   item_method (projr (new_RouterItem GET ''/a/:x'' () [])) \<noteq>
     item_method (projr (new_RouterItem POST ''/a/:x'' () [])) \<and>
   \<not> conflicts (projr (new_RouterItem GET ''/a/:x'' () [])) (projr (new_RouterItem POST ''/a/:x'' () []))"
proof -
  have ok: "add new_Router PATCH ''/users/:id'' () [] =
     (Inr (), snd (add new_Router PATCH ''/users/:id'' () []))"
    by (simp add: eval_defs)
  have differ: "item_method (projr (new_RouterItem GET ''/a/:x'' () [])) \<noteq>
     item_method (projr (new_RouterItem POST ''/a/:x'' () []))"
    by (simp add: eval_defs)
  show ?thesis
    using ok differ
      users_conflict_methods_never [of new_Router PATCH "()" "[]"
        "snd (add new_Router PATCH ''/users/:id'' () [])" "()" "[()]"
        "projr (new_RouterItem GET ''/a/:x'' () [])" "projr (new_RouterItem POST ''/a/:x'' () [])"]
    by blast
qed

section \<open>Failing registrations (C6)\<close>

text \<open>
  C6, as stated, counts a segment that holds \<open>*\<close> together with other characters
  as malformed.  The segment \<open>:*\<close> is one, and the constructor takes it: the
  branch for segments with \<open>:\<close> comes first and asks only that the colon be the
  first character and the only colon.  So \<open>/a/:*\<close> registers on a fresh router,
  which is changed by the call.
\<close>

theorem colon_star_registers_counterexample:
  "'':*'' \<in> set (segments ''/a/:*'') \<and> CHR ''*'' \<in> set '':*'' \<and> '':*'' \<noteq> ''*'' \<and>
   fst (add new_Router GET ''/a/:*'' () []) = Inr () \<and>
   snd (add new_Router GET ''/a/:*'' () []) \<noteq> new_Router"
  by (simp add: eval_defs)

lemma compile_part_None_colon:
  "CHR '':'' \<in> set part \<Longrightarrow> \<not> (hd part = CHR '':'' \<and> CHR '':'' \<notin> set (tl part)) \<Longrightarrow>
     compile_part part = None"
  by (simp add: compile_part_def)

lemma compile_part_None_star:
  "CHR '':'' \<notin> set part \<Longrightarrow> CHR ''*'' \<in> set part \<Longrightarrow> part \<noteq> ''*'' \<Longrightarrow>
     compile_part part = None"
  by (simp add: compile_part_def)

lemma bad_segment_fails:
  assumes "part \<in> set (segments pat)" and "compile_part part = None"
  shows "isl (new_RouterItem m pat h t)"
proof -
  from assms have neg: "(\<forall>s \<in> set (segments pat). compile_part s \<noteq> None) = False" by blast
  show ?thesis
    by (simp only: new_RouterItem_char neg if_False) simp
qed

lemma malformed_fails:
  assumes "pat = [] \<or> 1 < count_list pat CHR ''*'' \<or>
      (\<exists>part \<in> set (segments pat).
          CHR '':'' \<in> set part \<and> \<not> (hd part = CHR '':'' \<and> CHR '':'' \<notin> set (tl part))) \<or>
      (\<exists>part \<in> set (segments pat).
          CHR '':'' \<notin> set part \<and> CHR ''*'' \<in> set part \<and> part \<noteq> ''*'')"
  shows "isl (new_RouterItem m pat h t)"
proof -
  consider (empty) "pat = []" | (stars) "1 < count_list pat CHR ''*''"
    | (colon) part where "part \<in> set (segments pat)" "CHR '':'' \<in> set part"
        "\<not> (hd part = CHR '':'' \<and> CHR '':'' \<notin> set (tl part))"
    | (star) part where "part \<in> set (segments pat)" "CHR '':'' \<notin> set part"
        "CHR ''*'' \<in> set part" "part \<noteq> ''*''"
    using assms by blast
  then show ?thesis
  proof cases
    case empty
    then show ?thesis by (simp add: new_RouterItem_char)
  next
    case stars
    then show ?thesis by (simp add: new_RouterItem_char)
  next
    case colon
    show ?thesis
      by (rule bad_segment_fails [OF colon(1) compile_part_None_colon [OF colon(2) colon(3)]])
  next
    case star
    show ?thesis
      by (rule bad_segment_fails [OF star(1) compile_part_None_star [OF star(2) star(3) star(4)]])
  qed
qed

text \<open>
  C6, amended: if the pattern is the empty string, or holds more than one \<open>*\<close>, or
  has a segment with a \<open>:\<close> that is not its first character and its only colon,
  or has a segment without \<open>:\<close> that holds \<open>*\<close> together with other characters,
  or compiles to a route that conflicts with a route of the table, then the
  registration throws; and whenever a registration throws, the router is exactly
  as it was before the call.
\<close>

theorem failed_registration_leaves_table:
  "((pat = [] \<or> 1 < count_list pat CHR ''*'' \<or>
      (\<exists>part \<in> set (segments pat).
          CHR '':'' \<in> set part \<and> \<not> (hd part = CHR '':'' \<and> CHR '':'' \<notin> set (tl part))) \<or>
      (\<exists>part \<in> set (segments pat).
          CHR '':'' \<notin> set part \<and> CHR ''*'' \<in> set part \<and> part \<noteq> ''*'') \<or>
      (\<exists>item. new_RouterItem m pat h t = Inr item \<and> (\<exists>i \<in> set (routes r). conflicts item i)))
     \<longrightarrow> isl (fst (add r m pat h t))) \<and>
   (isl (fst (add r m pat h t)) \<longrightarrow> snd (add r m pat h t) = r)"
proof -
  have unchanged: "snd (add r m pat h t) = r" if "isl (fst (add r m pat h t))"
    using that by (auto simp: add_def split: sum.splits option.splits)
  have conflict: "isl (fst (add r m pat h t))"
    if "\<exists>item. new_RouterItem m pat h t = Inr item \<and> (\<exists>i \<in> set (routes r). conflicts item i)"
    using that by (auto simp: add_cases)
  have malformed: "isl (fst (add r m pat h t))" if "isl (new_RouterItem m pat h t)"
    using that by (auto simp: add_def split: sum.splits)
  show ?thesis
    using unchanged conflict malformed malformed_fails [of pat m h t] by blast
qed

text \<open>The theorem at the pattern \<open>/x/a*\<close>, whose second segment mixes \<open>*\<close> with a letter.\<close>

theorem failed_registration_leaves_table_witness:
  "(\<exists>part \<in> set (segments ''/x/a*'').
        CHR '':'' \<notin> set part \<and> CHR ''*'' \<in> set part \<and> part \<noteq> ''*'') \<and>
   isl (fst (add new_Router GET ''/x/a*'' () [])) \<and>
   snd (add new_Router GET ''/x/a*'' () []) = new_Router"
proof -
  have hyp: "\<exists>part \<in> set (segments ''/x/a*'').
        CHR '':'' \<notin> set part \<and> CHR ''*'' \<in> set part \<and> part \<noteq> ''*''"
    by (simp add: segments_def)
  show ?thesis
    using hyp failed_registration_leaves_table [of "''/x/a*''" GET "()" "[]" new_Router]
    by blast
qed

section \<open>A parameter named by the wildcard marker (C10)\<close>

lemma compile_part_star: "compile_part ''*'' = Some \<lparr>name = ''*'', param = True\<rparr>"
  by (simp add: compile_part_def)

lemma compile_part_colon_star: "compile_part '':*'' = Some \<lparr>name = ''*'', param = True\<rparr>"
  by (simp add: compile_part_def)

lemma matches_cong:
  "item_method a = item_method b \<Longrightarrow> parts a = parts b \<Longrightarrow> variadic a = variadic b \<Longrightarrow>
     matches a meth rs = matches b meth rs"
  by (simp add: matches_def)

text \<open>
  C10: take a pattern in which \<open>:*\<close> is a whole segment (it starts the pattern or
  follows a slash, and it ends the pattern or is followed by a slash) and the
  pattern with \<open>*\<close> in its place.  For every method the constructor throws on
  both or on neither, and when it does not throw the two routes have the same
  parts, the same variadic flag and the same method, and \<open>matches\<close> gives the same
  result on both for every request.
\<close>

theorem colon_star_same_as_star:
  assumes pre: "pre = [] \<or> last pre = CHR ''/''"
    and post: "post = [] \<or> hd post = CHR ''/''"
  shows "(isl (new_RouterItem m (pre @ '':*'' @ post) h t) \<longleftrightarrow>
            isl (new_RouterItem m (pre @ ''*'' @ post) h t)) \<and>
         (\<not> isl (new_RouterItem m (pre @ '':*'' @ post) h t) \<longrightarrow>
            parts (projr (new_RouterItem m (pre @ '':*'' @ post) h t)) =
              parts (projr (new_RouterItem m (pre @ ''*'' @ post) h t)) \<and>
            variadic (projr (new_RouterItem m (pre @ '':*'' @ post) h t)) =
              variadic (projr (new_RouterItem m (pre @ ''*'' @ post) h t)) \<and>
            item_method (projr (new_RouterItem m (pre @ '':*'' @ post) h t)) =
              item_method (projr (new_RouterItem m (pre @ ''*'' @ post) h t)) \<and>
            (\<forall>meth rs.
               matches (projr (new_RouterItem m (pre @ '':*'' @ post) h t)) meth rs =
               matches (projr (new_RouterItem m (pre @ ''*'' @ post) h t)) meth rs))"
proof -
  let ?A = "new_RouterItem m (pre @ '':*'' @ post) h t"
  let ?B = "new_RouterItem m (pre @ ''*'' @ post) h t"
  have segA: "segments (pre @ '':*'' @ post) = segments pre @ ['':*''] @ segments post"
    using pre post by (intro segments_sandwich) simp_all
  have segB: "segments (pre @ ''*'' @ post) = segments pre @ [''*''] @ segments post"
    using pre post by (intro segments_sandwich) simp_all
  have ok: "(\<forall>s \<in> set (segments (pre @ '':*'' @ post)). compile_part s \<noteq> None) \<longleftrightarrow>
            (\<forall>s \<in> set (segments (pre @ ''*'' @ post)). compile_part s \<noteq> None)"
    unfolding segA segB by (simp add: compile_part_star compile_part_colon_star)
  have ps: "map (\<lambda>s. the (compile_part s)) (segments (pre @ '':*'' @ post)) =
            map (\<lambda>s. the (compile_part s)) (segments (pre @ ''*'' @ post))"
    unfolding segA segB by (simp add: compile_part_star compile_part_colon_star)
  have cnt: "count_list (pre @ '':*'' @ post) CHR ''*'' = count_list (pre @ ''*'' @ post) CHR ''*''"
    by simp
  have A: "?A =
     (if 1 < count_list (pre @ ''*'' @ post) CHR ''*'' then Inl (WrongPattern (pre @ '':*'' @ post))
      else if \<forall>s \<in> set (segments (pre @ ''*'' @ post)). compile_part s \<noteq> None
      then Inr \<lparr>item_method = m, pattern = pre @ '':*'' @ post, handlers = h # t,
                parts = map (\<lambda>s. the (compile_part s)) (segments (pre @ ''*'' @ post)),
                variadic = True\<rparr>
      else Inl (WrongPattern (pre @ '':*'' @ post)))"
    unfolding new_RouterItem_char ok ps cnt by auto
  have B: "?B =
     (if 1 < count_list (pre @ ''*'' @ post) CHR ''*'' then Inl (WrongPattern (pre @ ''*'' @ post))
      else if \<forall>s \<in> set (segments (pre @ ''*'' @ post)). compile_part s \<noteq> None
      then Inr \<lparr>item_method = m, pattern = pre @ ''*'' @ post, handlers = h # t,
                parts = map (\<lambda>s. the (compile_part s)) (segments (pre @ ''*'' @ post)),
                variadic = True\<rparr>
      else Inl (WrongPattern (pre @ ''*'' @ post)))"
    unfolding new_RouterItem_char by auto
  have both: "isl ?A \<longleftrightarrow> isl ?B"
    unfolding A B by auto
  have same: "parts (projr ?A) = parts (projr ?B) \<and> variadic (projr ?A) = variadic (projr ?B) \<and>
      item_method (projr ?A) = item_method (projr ?B)" if "\<not> isl ?A"
    using that unfolding A B by (auto split: if_splits)
  have "matches (projr ?A) meth rs = matches (projr ?B) meth rs" if "\<not> isl ?A" for meth rs
    using same [OF that] by (intro matches_cong) simp_all
  with both same show ?thesis by blast
qed

text \<open>The theorem at \<open>GET /a/:*\<close> and \<open>GET /a/*\<close>, on the request \<open>GET /a/b/c\<close>.\<close>

theorem colon_star_same_as_star_witness:
  "last ''/a/'' = CHR ''/'' \<and>
   \<not> isl (new_RouterItem GET ''/a/:*'' () []) \<and>
   \<not> isl (new_RouterItem GET ''/a/*'' () []) \<and>
   parts (projr (new_RouterItem GET ''/a/:*'' () [])) = parts (projr (new_RouterItem GET ''/a/*'' () [])) \<and>
   variadic (projr (new_RouterItem GET ''/a/:*'' () [])) = variadic (projr (new_RouterItem GET ''/a/*'' () [])) \<and>
   matches (projr (new_RouterItem GET ''/a/:*'' () [])) ''GET'' (segments ''/a/b/c'') =
     matches (projr (new_RouterItem GET ''/a/*'' () [])) ''GET'' (segments ''/a/b/c'') \<and>
   fst (matches (projr (new_RouterItem GET ''/a/:*'' () [])) ''GET'' (segments ''/a/b/c''))"
proof -
  have pre: "''/a/'' = [] \<or> last ''/a/'' = CHR ''/''" by simp
  have post: "([]::string) = [] \<or> hd ([]::string) = CHR ''/''" by simp
  have ok: "\<not> isl (new_RouterItem GET ''/a/:*'' () [])"
    by (simp add: eval_defs)
  have m: "fst (matches (projr (new_RouterItem GET ''/a/:*'' () [])) ''GET'' (segments ''/a/b/c''))"
    by (simp add: eval_defs)
  show ?thesis
    using ok m colon_star_same_as_star [OF pre post, of GET "()" "[]"]
    by simp
qed

section \<open>The walk past a wildcard (C3)\<close>

text \<open>
  C3, as stated, has the walk of \<open>matches\<close> end at the Wildcard segment, so that
  no segment declared after it can make the match fail.  The loop has no exit
  there: it binds \<open>*\<close> and goes on to the next index.  The pattern \<open>/a/*/b\<close>
  matches \<open>/a/x/b\<close> and does not match \<open>/a/x/y\<close>, which differs from it only at
  the index of the literal after the wildcard.
\<close>

theorem literal_after_wildcard_counterexample:
  "\<not> isl (new_RouterItem GET ''/a/*/b'' () []) \<and>
   fst (matches (projr (new_RouterItem GET ''/a/*/b'' () [])) ''GET'' (segments ''/a/x/b'')) \<and>
   \<not> fst (matches (projr (new_RouterItem GET ''/a/*/b'' () [])) ''GET'' (segments ''/a/x/y''))"
  by (simp add: eval_defs)

text \<open>
  C3, amended: for every compiled pattern with a Wildcard segment at index \<open>i\<close>
  and every request, \<open>matches\<close> succeeds exactly when the method agrees, the
  request has at least as many segments as the pattern, and every Literal
  segment of the pattern, those declared after the Wildcard included, equals the
  request segment at its own index; and when it succeeds, \<open>*\<close> is bound to the
  \<open>/\<close>-join of all request segments from index \<open>i\<close> onward.
\<close>

theorem wildcard_binds_rest_walk_continues:
  assumes item: "new_RouterItem m pat h t = Inr it"
    and i: "i < length (parts it)"
    and wild: "param (parts it ! i)" "name (parts it ! i) = ''*''"
  shows "(fst (matches it meth rs) \<longleftrightarrow>
            toUpperCase meth = method_string m \<and> length (parts it) \<le> length rs \<and>
            (\<forall>j < length (parts it). \<not> param (parts it ! j) \<longrightarrow> name (parts it ! j) = rs ! j)) \<and>
         (fst (matches it meth rs) \<longrightarrow>
            snd (matches it meth rs) ''*'' = Some (join ''/'' (drop i rs)))"
proof -
  have v: "variadic it"
    by (rule compiled_star_variadic [OF item i wild(2)])
  have m: "item_method it = m"
    by (rule new_RouterItem_Inr(6) [OF item])
  have run: "matches it meth rs =
      (if toUpperCase meth = method_string m \<and> length (parts it) \<le> length rs
       then matches_loop (parts it) rs 0 Map.empty else (False, Map.empty))"
    by (simp add: matches_def v m)
  have walk: "fst (matches_loop (parts it) rs 0 Map.empty) \<longleftrightarrow>
      (\<forall>j < length (parts it). \<not> param (parts it ! j) \<longrightarrow> name (parts it ! j) = rs ! j)"
    by (simp add: matches_loop_fst)
  have first: "fst (matches it meth rs) \<longleftrightarrow>
            toUpperCase meth = method_string m \<and> length (parts it) \<le> length rs \<and>
            (\<forall>j < length (parts it). \<not> param (parts it ! j) \<longrightarrow> name (parts it ! j) = rs ! j)"
    unfolding run using walk by auto
  have only: "\<forall>j. i < j \<and> j < length (parts it) \<longrightarrow> param (parts it ! j) \<longrightarrow> name (parts it ! j) \<noteq> ''*''"
    using compiled_star_unique [OF item i wild(2)] by auto
  have second: "snd (matches it meth rs) ''*'' = Some (join ''/'' (drop i rs))"
    if ok: "fst (matches it meth rs)"
  proof -
    from ok have cond: "toUpperCase meth = method_string m \<and> length (parts it) \<le> length rs"
      unfolding run by (simp split: if_splits)
    then have eq: "matches it meth rs = matches_loop (parts it) rs 0 Map.empty"
      unfolding run by simp
    from ok have f: "fst (matches_loop (parts it) rs 0 Map.empty)"
      unfolding eq .
    show ?thesis
      unfolding eq by (rule matches_loop_wildcard [OF f _ i wild only]) simp
  qed
  from first second show ?thesis by blast
qed

text \<open>The theorem at \<open>GET /a/*/b\<close>, whose wildcard is at index 1, on the request \<open>GET /a/x/b\<close>.\<close>

theorem wildcard_binds_rest_walk_continues_witness:
  "new_RouterItem GET ''/a/*/b'' () [] = Inr (projr (new_RouterItem GET ''/a/*/b'' () [])) \<and>
   1 < length (parts (projr (new_RouterItem GET ''/a/*/b'' () []))) \<and>
   param (parts (projr (new_RouterItem GET ''/a/*/b'' () [])) ! 1) \<and>
   name (parts (projr (new_RouterItem GET ''/a/*/b'' () [])) ! 1) = ''*'' \<and>
   fst (matches (projr (new_RouterItem GET ''/a/*/b'' () [])) ''GET'' (segments ''/a/x/b'')) \<and>
   snd (matches (projr (new_RouterItem GET ''/a/*/b'' () [])) ''GET'' (segments ''/a/x/b'')) ''*''
     = Some ''x/b''"
proof -
  let ?it = "projr (new_RouterItem GET ''/a/*/b'' () [])"
  have item: "new_RouterItem GET ''/a/*/b'' () [] = Inr ?it"
    by (simp add: eval_defs)
  have i: "1 < length (parts ?it)"
    by (simp add: eval_defs)
  have wild: "param (parts ?it ! 1)" "name (parts ?it ! 1) = ''*''"
    by (simp_all add: eval_defs)
  have ok: "fst (matches ?it ''GET'' (segments ''/a/x/b''))"
    by (simp add: eval_defs)
  have rest: "join ''/'' (drop 1 (segments ''/a/x/b'')) = ''x/b''"
    by (simp add: segments_def)
  from wildcard_binds_rest_walk_continues [OF item i wild, of "''GET''" "segments ''/a/x/b''"] ok
  have "snd (matches ?it ''GET'' (segments ''/a/x/b'')) ''*'' =
      Some (join ''/'' (drop 1 (segments ''/a/x/b'')))"
    by blast
  then have "snd (matches ?it ''GET'' (segments ''/a/x/b'')) ''*'' = Some ''x/b''"
    unfolding rest .
  with item i wild ok show ?thesis by blast
qed

section \<open>First match wins (C4)\<close>

text \<open>
  C4: when the URL of the request parses, \<open>process\<close> scans the table in
  registration order.  If no route matches it returns \<open>false\<close>, the world is
  untouched and no handler has been called.  Otherwise the first route that
  matches, whatever follows it in the table, is the one dispatched: the world
  and the calls are those of running its chain alone on the context built from
  the request, the props and the bindings of that match; \<open>process\<close> returns
  \<open>true\<close> whenever no call of the chain threw, be it that the chain was run to
  its end or was stopped; in particular when the first handler stops at once.
\<close>

theorem process_first_match_wins:
  assumes url: "pathname (req_url rq) = Inr path"
    and ctx: "ctx = \<lparr>req = rq, props = pr, params = snd (matches route (req_method rq) (segments path))\<rparr>"
  shows "((\<forall>r \<in> set (routes rt). \<not> fst (matches r (req_method rq) (segments path))) \<longrightarrow>
            process pathname rt rq pr w = (Inr False, w, [])) \<and>
         (routes rt = pre @ route # post \<and>
          (\<forall>r \<in> set pre. \<not> fst (matches r (req_method rq) (segments path))) \<and>
          fst (matches route (req_method rq) (segments path)) \<longrightarrow>
            snd (process pathname rt rq pr w) = snd (run_handlers ctx (handlers route) w []) \<and>
            ((\<forall>c \<in> set (snd (snd (process pathname rt rq pr w))). \<forall>e. snd (snd c) \<noteq> Threw e) \<longrightarrow>
               fst (process pathname rt rq pr w) = Inr True) \<and>
            (\<forall>h0 hs w1. handlers route = h0 # hs \<and> h0 ctx w = (Stopped, w1) \<longrightarrow>
               process pathname rt rq pr w = (Inr True, w1, [(h0, ctx, Stopped)])))"
proof -
  have none: "process pathname rt rq pr w = (Inr False, w, [])"
    if "\<forall>r \<in> set (routes rt). \<not> fst (matches r (req_method rq) (segments path))"
    using that url by (simp add: process_def process_routes_none)
  have some: "snd (process pathname rt rq pr w) = snd (run_handlers ctx (handlers route) w []) \<and>
            ((\<forall>c \<in> set (snd (snd (process pathname rt rq pr w))). \<forall>e. snd (snd c) \<noteq> Threw e) \<longrightarrow>
               fst (process pathname rt rq pr w) = Inr True) \<and>
            (\<forall>h0 hs w1. handlers route = h0 # hs \<and> h0 ctx w = (Stopped, w1) \<longrightarrow>
               process pathname rt rq pr w = (Inr True, w1, [(h0, ctx, Stopped)]))"
    if table: "routes rt = pre @ route # post"
      and before: "\<forall>r \<in> set pre. \<not> fst (matches r (req_method rq) (segments path))"
      and hit: "fst (matches route (req_method rq) (segments path))"
  proof -
    obtain r w' l where run: "run_handlers ctx (handlers route) w [] = (r, w', l)"
      by (cases "run_handlers ctx (handlers route) w []") auto
    have p: "process pathname rt rq pr w =
        (case r of Some e \<Rightarrow> (Inl e, w', l) | None \<Rightarrow> (Inr True, w', l))"
      using process_matched [of pathname rq path rt pre route post pr w, OF url table before hit] run
      unfolding ctx by (simp split: option.splits)
    have same: "snd (process pathname rt rq pr w) = snd (run_handlers ctx (handlers route) w [])"
      unfolding p run by (simp split: option.splits)
    have l: "snd (snd (process pathname rt rq pr w)) = l"
      unfolding same run by simp
    have true: "fst (process pathname rt rq pr w) = Inr True"
      if "\<forall>c \<in> set (snd (snd (process pathname rt rq pr w))). \<forall>e. snd (snd c) \<noteq> Threw e"
    proof -
      from that log_threw [OF run] have "r = None" unfolding l by simp
      then show ?thesis unfolding p by simp
    qed
    have stop: "process pathname rt rq pr w = (Inr True, w1, [(h0, ctx, Stopped)])"
      if "handlers route = h0 # hs" and "h0 ctx w = (Stopped, w1)" for h0 hs w1
    proof -
      from that run have "r = None" "w' = w1" "l = [(h0, ctx, Stopped)]" by simp_all
      then show ?thesis unfolding p by simp
    qed
    from same true stop show ?thesis by blast
  qed
  from none some show ?thesis by blast
qed

text \<open>
  The theorem on the table \<open>GET /a\<close>, \<open>GET /b\<close> and the request \<open>GET /b\<close>: the
  chain of \<open>/b\<close> continues once and then stops, and the handler of \<open>/a\<close> never runs.
\<close>

theorem process_first_match_wins_witness:
  "path_only (req_url \<lparr>req_method = ''GET'', req_url = ''/b'', req_content_type = None\<rparr>) = Inr ''/b'' \<and>
   routes (snd (add (snd (add new_Router GET ''/a'' (stopping 1) []))
                  GET ''/b'' (continuing 2) [stopping 3]))
     = [projr (new_RouterItem GET ''/a'' (stopping 1) [])] @
       projr (new_RouterItem GET ''/b'' (continuing 2) [stopping 3]) # [] \<and>
   \<not> fst (matches (projr (new_RouterItem GET ''/a'' (stopping 1) [])) ''GET'' (segments ''/b'')) \<and>
   fst (matches (projr (new_RouterItem GET ''/b'' (continuing 2) [stopping 3])) ''GET'' (segments ''/b'')) \<and>
   fst (process path_only
          (snd (add (snd (add new_Router GET ''/a'' (stopping 1) []))
                  GET ''/b'' (continuing 2) [stopping 3]))
          \<lparr>req_method = ''GET'', req_url = ''/b'', req_content_type = None\<rparr> () []) = Inr True \<and>
   fst (snd (process path_only
          (snd (add (snd (add new_Router GET ''/a'' (stopping 1) []))
                  GET ''/b'' (continuing 2) [stopping 3]))
          \<lparr>req_method = ''GET'', req_url = ''/b'', req_content_type = None\<rparr> () [])) = [2, 3]"
proof -
  let ?rq = "\<lparr>req_method = ''GET'', req_url = ''/b'', req_content_type = None\<rparr>"
  let ?rt = "snd (add (snd (add new_Router GET ''/a'' (stopping 1) [])) GET ''/b'' (continuing 2) [stopping 3])"
  let ?r1 = "projr (new_RouterItem GET ''/a'' (stopping 1) [])"
  let ?r2 = "projr (new_RouterItem GET ''/b'' (continuing 2) [stopping 3])"
  let ?ctx = "\<lparr>req = ?rq, props = (), params = snd (matches ?r2 (req_method ?rq) (segments ''/b''))\<rparr>"
  let ?P = "process path_only ?rt ?rq () []"
  have url: "path_only (req_url ?rq) = Inr ''/b''" by (simp add: path_only_def)
  have table: "routes ?rt = [?r1] @ ?r2 # []"
    by (simp add: eval_defs)
  have miss: "\<not> fst (matches ?r1 ''GET'' (segments ''/b''))"
    by (simp add: eval_defs)
  have hit: "fst (matches ?r2 ''GET'' (segments ''/b''))"
    by (simp add: eval_defs)
  have before: "\<forall>r \<in> set [?r1]. \<not> fst (matches r (req_method ?rq) (segments ''/b''))"
    using miss by simp
  have hit': "fst (matches ?r2 (req_method ?rq) (segments ''/b''))"
    using hit by simp
  have hs: "handlers ?r2 = [continuing 2, stopping 3]"
    by (simp add: eval_defs)
  have run: "run_handlers ?ctx (handlers ?r2) [] [] =
      (None, [2, 3], [(continuing 2, ?ctx, Continued), (stopping 3, ?ctx, Stopped)])"
    unfolding hs by (simp add: continuing_def stopping_def)
  note T = process_first_match_wins [where pathname = path_only
      and rq = ?rq and path = "''/b''" and ctx = ?ctx and pr = "()" and route = ?r2 and rt = ?rt
      and w = "[]" and pre = "[?r1]" and post = "[]", OF url refl]
  from T table before hit' have same: "snd ?P = snd (run_handlers ?ctx (handlers ?r2) [] [])"
    by blast
  then have snd: "snd ?P = ([2, 3], [(continuing 2, ?ctx, Continued), (stopping 3, ?ctx, Stopped)])"
    unfolding run by simp
  then have clean: "\<forall>c \<in> set (snd (snd ?P)). \<forall>e. snd (snd c) \<noteq> Threw e"
    by simp
  from T table before hit' clean have true: "fst ?P = Inr True"
    by blast
  from snd have world: "fst (snd ?P) = [2, 3]" by simp
  from url table miss hit true world show ?thesis by blast
qed

section \<open>The handler chain (C5)\<close>

text \<open>
  C5: when a route is dispatched, its first handler is called, and the calls made
  are calls of the handlers of its chain, in the order of the chain and without
  gaps, one after the other, each with the one context built for the request.
  The handler at place \<open>k\<close> is given the world left by the handlers before it,
  run in order from the world of the request, and the log says how it ended
  there.  If it ended there without \<open>next\<close> having been called, its call is the
  last call made: no later handler of the chain is called.  If it ended there
  with \<open>next\<close> called and the chain has a next handler, that handler is called
  next, with the same context, on the world the call left.  The world
  \<open>process\<close> leaves is the world left by the last call.
\<close>

theorem handlers_run_in_order_until_stop:
  assumes url: "pathname (req_url rq) = Inr path"
    and table: "routes rt = pre @ route # post"
    and before: "\<forall>r \<in> set pre. \<not> fst (matches r (req_method rq) (segments path))"
    and hit: "fst (matches route (req_method rq) (segments path))"
    and ctx: "ctx = \<lparr>req = rq, props = pr, params = snd (matches route (req_method rq) (segments path))\<rparr>"
    and hs: "hs = handlers route"
    and log: "log = snd (snd (process pathname rt rq pr w))"
  shows "(hs \<noteq> [] \<longrightarrow> log \<noteq> []) \<and> length log \<le> length hs \<and>
         (\<forall>k < length log.
            log ! k = (hs ! k, ctx, fst ((hs ! k) ctx (foldl (\<lambda>v h. snd (h ctx v)) w (take k hs))))) \<and>
         (\<forall>k < length log.
            fst ((hs ! k) ctx (foldl (\<lambda>v h. snd (h ctx v)) w (take k hs))) \<noteq> Continued \<longrightarrow>
            length log = Suc k) \<and>
         (\<forall>k < length log.
            fst ((hs ! k) ctx (foldl (\<lambda>v h. snd (h ctx v)) w (take k hs))) = Continued \<longrightarrow>
            Suc k < length hs \<longrightarrow>
            Suc k < length log \<and>
            log ! Suc k =
              (hs ! Suc k, ctx,
               fst ((hs ! Suc k) ctx (foldl (\<lambda>v h. snd (h ctx v)) w (take (Suc k) hs))))) \<and>
         fst (snd (process pathname rt rq pr w)) =
           foldl (\<lambda>v h. snd (h ctx v)) w (take (length log) hs)"
proof -
  obtain r w' l where run: "run_handlers ctx hs w [] = (r, w', l)"
    by (cases "run_handlers ctx hs w []") auto
  have p: "process pathname rt rq pr w =
      (case r of Some e \<Rightarrow> (Inl e, w', l) | None \<Rightarrow> (Inr True, w', l))"
    using process_matched [of pathname rq path rt pre route post pr w, OF url table before hit] run
    unfolding ctx hs by (simp split: option.splits)
  then have l: "log = l"
    unfolding log by (simp split: option.splits)
  from p have world: "fst (snd (process pathname rt rq pr w)) = w'"
    by (simp split: option.splits)
  note prefix = log_prefix [OF run]
  note exact = log_exact [OF run]
  note stops = log_stops [OF run]
  note continues = log_continues [OF run]
  have outcome: "snd (snd (l ! k)) =
      fst ((hs ! k) ctx (foldl (\<lambda>v h. snd (h ctx v)) w (take k hs)))" if "k < length l" for k
    using exact that by simp
  have first: "hs \<noteq> [] \<longrightarrow> l \<noteq> []"
    using log_nonempty [OF run] by blast
  have len: "length l \<le> length hs"
    using prefix by blast
  have last_call: "length l = Suc k"
    if "k < length l" "fst ((hs ! k) ctx (foldl (\<lambda>v h. snd (h ctx v)) w (take k hs))) \<noteq> Continued" for k
  proof -
    from that outcome have "snd (snd (l ! k)) \<noteq> Continued" by simp
    with stops that(1) show ?thesis by blast
  qed
  have next_call: "Suc k < length l \<and>
      l ! Suc k = (hs ! Suc k, ctx,
         fst ((hs ! Suc k) ctx (foldl (\<lambda>v h. snd (h ctx v)) w (take (Suc k) hs))))"
    if "k < length l" "fst ((hs ! k) ctx (foldl (\<lambda>v h. snd (h ctx v)) w (take k hs))) = Continued"
      "Suc k < length hs" for k
  proof -
    from that outcome have "snd (snd (l ! k)) = Continued" by simp
    with continues that have "Suc k < length l" by blast
    with exact show ?thesis by blast
  qed
  have final: "fst (snd (process pathname rt rq pr w)) =
      foldl (\<lambda>v h. snd (h ctx v)) w (take (length l) hs)"
    unfolding world by (rule log_world [OF run])
  from first len exact last_call next_call final show ?thesis
    unfolding l by blast
qed

text \<open>
  The theorem on the table \<open>POST /x\<close> with the chain continue, stop, continue and
  the request \<open>post /x\<close>: the first handler is called and continues, the second
  is called on the world the first left and stops, the third is never called.
\<close>

theorem handlers_run_in_order_until_stop_witness:
  "path_only (req_url \<lparr>req_method = ''post'', req_url = ''/x'', req_content_type = None\<rparr>) = Inr ''/x'' \<and>
   routes (snd (add new_Router POST ''/x'' (continuing 1) [stopping 2, continuing 3]))
     = [] @ projr (new_RouterItem POST ''/x'' (continuing 1) [stopping 2, continuing 3]) # [] \<and>
   fst (matches (projr (new_RouterItem POST ''/x'' (continuing 1) [stopping 2, continuing 3]))
          ''post'' (segments ''/x'')) \<and>
   handlers (projr (new_RouterItem POST ''/x'' (continuing 1) [stopping 2, continuing 3]))
     = [continuing 1, stopping 2, continuing 3] \<and>
   length (snd (snd (process path_only
          (snd (add new_Router POST ''/x'' (continuing 1) [stopping 2, continuing 3]))
          \<lparr>req_method = ''post'', req_url = ''/x'', req_content_type = None\<rparr> () []))) = 2 \<and>
   map (\<lambda>c. snd (snd c)) (snd (snd (process path_only
          (snd (add new_Router POST ''/x'' (continuing 1) [stopping 2, continuing 3]))
          \<lparr>req_method = ''post'', req_url = ''/x'', req_content_type = None\<rparr> () [])))
     = [Continued, Stopped] \<and>
   fst (snd (process path_only
          (snd (add new_Router POST ''/x'' (continuing 1) [stopping 2, continuing 3]))
          \<lparr>req_method = ''post'', req_url = ''/x'', req_content_type = None\<rparr> () [])) = [1, 2]"
proof -
  let ?rq = "\<lparr>req_method = ''post'', req_url = ''/x'', req_content_type = None\<rparr>"
  let ?rt = "snd (add new_Router POST ''/x'' (continuing 1) [stopping 2, continuing 3])"
  let ?r = "projr (new_RouterItem POST ''/x'' (continuing 1) [stopping 2, continuing 3])"
  let ?hs = "[continuing 1, stopping 2, continuing 3]"
  let ?ctx = "\<lparr>req = ?rq, props = (), params = snd (matches ?r (req_method ?rq) (segments ''/x''))\<rparr>"
  let ?P = "process path_only ?rt ?rq () []"
  let ?log = "snd (snd ?P)"
  have url: "path_only (req_url ?rq) = Inr ''/x''" by (simp add: path_only_def)
  have table: "routes ?rt = [] @ ?r # []"
    by (simp add: eval_defs)
  have hit: "fst (matches ?r ''post'' (segments ''/x''))"
    by (simp add: eval_defs)
  have hit': "fst (matches ?r (req_method ?rq) (segments ''/x''))"
    using hit by simp
  have before: "\<forall>r \<in> set []. \<not> fst (matches r (req_method ?rq) (segments ''/x''))"
    by simp
  have hs: "?hs = handlers ?r"
    by (simp add: eval_defs)
  have P: "?P = (Inr True, [1, 2], [(continuing 1, ?ctx, Continued), (stopping 2, ?ctx, Stopped)])"
    unfolding process_matched [of path_only ?rq "''/x''" ?rt "[]" ?r "[]" "()" "[]",
        OF url table before hit'] hs [symmetric]
    by (simp add: continuing_def stopping_def)
  note T = handlers_run_in_order_until_stop [where pathname = path_only
      and rq = ?rq and path = "''/x''" and rt = ?rt and pre = "[]" and route = ?r and post = "[]"
      and ctx = ?ctx and pr = "()" and w = "[]" and hs = ?hs and log = ?log,
      OF url table before hit' refl hs refl]
  have one: "1 < length ?log"
    unfolding P by simp
  have at1: "fst ((?hs ! 1) ?ctx (foldl (\<lambda>v h. snd (h ?ctx v)) [] (take 1 ?hs))) \<noteq> Continued"
    by (simp add: continuing_def stopping_def)
  from T have stops: "\<forall>k < length ?log.
      fst ((?hs ! k) ?ctx (foldl (\<lambda>v h. snd (h ?ctx v)) [] (take k ?hs))) \<noteq> Continued \<longrightarrow>
      length ?log = Suc k"
    by (elim conjE)
  from stops one at1 have "length ?log = Suc 1" by blast
  then have two: "length ?log = 2" by simp
  have outcomes: "map (\<lambda>c. snd (snd c)) ?log = [Continued, Stopped]"
    unfolding P by simp
  have world: "fst (snd ?P) = [1, 2]"
    unfolding P by simp
  from url table hit hs [symmetric] two outcomes world show ?thesis by blast
qed

section \<open>The body middleware (C9)\<close>

text \<open>
  C9, as stated, has the middleware store the decoded value and call \<open>next\<close>
  whenever the body decodes.  The assignment to the props object is inside the
  \<open>try\<close>: on a frozen props object the body \<open>{}\<close> decodes, the assignment throws,
  the \<open>catch\<close> clause responds 500, nothing is stored and \<open>next\<close> is not called.
\<close>

theorem frozen_props_counterexample:
  "\<not> isl (fst (readBodyAsJSON example_host
      \<lparr>req_method = ''POST'', req_url = ''/x'', req_content_type = Some ''application/json''\<rparr>
      (unread_frozen ''{}''))) \<and>
   fst (bodyJSON example_host ''body''
      \<lparr>req = \<lparr>req_method = ''POST'', req_url = ''/x'', req_content_type = Some ''application/json''\<rparr>,
        props = (), params = Map.empty\<rparr> (unread_frozen ''{}'')) = (Stopped :: unit settled) \<and>
   responded (snd (bodyJSON example_host ''body''
      \<lparr>req = \<lparr>req_method = ''POST'', req_url = ''/x'', req_content_type = Some ''application/json''\<rparr>,
        props = (), params = Map.empty\<rparr> (unread_frozen ''{}'') :: unit settled \<times> _)) = [500] \<and>
   props_fields (snd (bodyJSON example_host ''body''
      \<lparr>req = \<lparr>req_method = ''POST'', req_url = ''/x'', req_content_type = Some ''application/json''\<rparr>,
        props = (), params = Map.empty\<rparr> (unread_frozen ''{}'') :: unit settled \<times> _)) () ''body'' = None"
  by (simp add: bodyJSON_def readBodyAsJSON_def readBodyAsText_def respond_def
      example_host_def unread_frozen_def unread_def)

text \<open>
  C9, amended: whatever \<open>readBodyAsJSON\<close> does on the request of the context,
  the middleware \<open>bodyJSON(key)\<close> ends as follows.  If a value was decoded and
  its assignment to the field \<open>key\<close> of the props object of the context does not
  throw, the value is stored there, nothing is responded and \<open>next\<close> is called.
  If the helper threw, or the assignment of the decoded value threw, the status
  responded is 415 for the unsupported-media-type error, 400 for the JSON-parse
  error and 500 for anything else; \<open>next\<close> is not called, the props objects are
  as they were, and a chain that starts with the middleware makes this one call
  and no other.
\<close>

theorem bodyJSON_stores_or_responds:
  assumes read: "readBodyAsJSON h (req context) w = (res, w1)"
    and run: "bodyJSON h key context w = (out, w')"
  shows "(\<forall>v. res = Inr v \<and> store_throws w (props context) key v = None \<longrightarrow>
            out = Continued \<and> props_fields w' (props context) key = Some v \<and>
            responded w' = responded w) \<and>
         (\<forall>e. res = Inl e \<or> (\<exists>v. res = Inr v \<and> store_throws w (props context) key v = Some e) \<longrightarrow>
            out = Stopped \<and> props_fields w' = props_fields w \<and>
            responded w' = responded w @
              [case e of UnsupportedMediaTypeError t \<Rightarrow> 415 | JSONParseError msg \<Rightarrow> 400 | Other x \<Rightarrow> 500] \<and>
            run_handlers context (bodyJSON h key # rest) w [] =
              (None, w', [(bodyJSON h key, context, out)]))"
proof -
  note frame = readBodyAsJSON_frame [OF read]
  have ok: "out = Continued \<and> props_fields w' (props context) key = Some v \<and>
      responded w' = responded w"
    if "res = Inr v" "store_throws w (props context) key v = None" for v
    using that read run frame by (auto simp: bodyJSON_def)
  have caught: "out = Stopped \<and> props_fields w' = props_fields w \<and>
      responded w' = responded w @
        [case e of UnsupportedMediaTypeError t \<Rightarrow> 415 | JSONParseError msg \<Rightarrow> 400 | Other x \<Rightarrow> 500]"
    if "res = Inl e \<or> (\<exists>v. res = Inr v \<and> store_throws w (props context) key v = Some e)" for e
    using that read run frame by (cases e) (auto simp: bodyJSON_def respond_def)
  have chain: "run_handlers context (bodyJSON h key # rest) w [] =
      (None, w', [(bodyJSON h key, context, out)])"
    if "res = Inl e \<or> (\<exists>v. res = Inr v \<and> store_throws w (props context) key v = Some e)" for e
    using caught [OF that] run by simp
  from ok caught chain show ?thesis
    by blast
qed

text \<open>
  The theorem on a JSON request whose body does not parse, where 400 is responded
  and the middleware stops, and on one whose body parses, where the value is
  stored under the key and the middleware continues.
\<close>

theorem bodyJSON_stores_or_responds_witness:
  "readBodyAsJSON example_host
      \<lparr>req_method = ''POST'', req_url = ''/x'', req_content_type = Some ''application/json''\<rparr>
      (unread ''{'')
     = (Inl (JSONParseError ''Unexpected token''), (unread ''{'')\<lparr>bodytext := Some ''{''\<rparr>) \<and>
   fst (bodyJSON example_host ''body''
      \<lparr>req = \<lparr>req_method = ''POST'', req_url = ''/x'', req_content_type = Some ''application/json''\<rparr>,
        props = (), params = Map.empty\<rparr> (unread ''{'')) = (Stopped :: unit settled) \<and>
   responded (snd (bodyJSON example_host ''body''
      \<lparr>req = \<lparr>req_method = ''POST'', req_url = ''/x'', req_content_type = Some ''application/json''\<rparr>,
        props = (), params = Map.empty\<rparr> (unread ''{'') :: unit settled \<times> _)) = [400] \<and>
   fst (readBodyAsJSON example_host
      \<lparr>req_method = ''POST'', req_url = ''/x'', req_content_type = Some ''application/json''\<rparr>
      (unread ''{}'')) = Inr (JSON ()) \<and>
   store_throws (unread ''{}'') () ''body'' (JSON ()) = None \<and>
   fst (bodyJSON example_host ''body''
      \<lparr>req = \<lparr>req_method = ''POST'', req_url = ''/x'', req_content_type = Some ''application/json''\<rparr>,
        props = (), params = Map.empty\<rparr> (unread ''{}'')) = (Continued :: unit settled) \<and>
   props_fields (snd (bodyJSON example_host ''body''
      \<lparr>req = \<lparr>req_method = ''POST'', req_url = ''/x'', req_content_type = Some ''application/json''\<rparr>,
        props = (), params = Map.empty\<rparr> (unread ''{}'') :: unit settled \<times> _)) () ''body'' = Some (JSON ())"
proof -
  let ?rq = "\<lparr>req_method = ''POST'', req_url = ''/x'', req_content_type = Some ''application/json''\<rparr>"
  let ?ctx = "\<lparr>req = ?rq, props = (), params = Map.empty\<rparr>"
  let ?B = "bodyJSON example_host ''body'' ?ctx (unread ''{'') :: unit settled \<times> _"
  let ?C = "bodyJSON example_host ''body'' ?ctx (unread ''{}'') :: unit settled \<times> _"
  have read: "readBodyAsJSON example_host (req ?ctx) (unread ''{'') =
      (Inl (JSONParseError ''Unexpected token''), (unread ''{'')\<lparr>bodytext := Some ''{''\<rparr>)"
    by (simp add: readBodyAsJSON_def readBodyAsText_def example_host_def unread_def)
  have run: "?B = (fst ?B, snd ?B)" by simp
  from bodyJSON_stores_or_responds [OF read run]
  have "fst ?B = Stopped \<and> responded (snd ?B) = responded (unread ''{'') @ [400]"
    by simp
  moreover have "responded (unread ''{'') = []" by (simp add: unread_def)
  ultimately have bad: "fst ?B = Stopped \<and> responded (snd ?B) = [400]" by simp
  have read2: "readBodyAsJSON example_host (req ?ctx) (unread ''{}'') =
      (Inr (JSON ()), snd (readBodyAsJSON example_host (req ?ctx) (unread ''{}'')))"
    by (simp add: readBodyAsJSON_def readBodyAsText_def example_host_def unread_def)
  have store: "store_throws (unread ''{}'') () ''body'' (JSON ()) = None"
    by (simp add: unread_def)
  have run2: "?C = (fst ?C, snd ?C)" by simp
  from bodyJSON_stores_or_responds [OF read2 run2] store
  have good: "fst ?C = Continued \<and> props_fields (snd ?C) () ''body'' = Some (JSON ())"
    by simp
  from read2 have dec: "fst (readBodyAsJSON example_host ?rq (unread ''{}'')) = Inr (JSON ())"
    by (metis fst_conv RouterContext.select_convs(1))
  from read bad dec store good show ?thesis by simp
qed
end
